theory Spec2Isabelle
  imports Main "HOL-Library.Word"
begin

unbundle bit_operations_syntax

section \<open>GF(2^8) arithmetic of galois-js: the model of \<open>src/gf256.ts\<close>\<close>

text \<open>
  The numbers of the source are modelled as \<open>int\<close> (a non-integer number fails every
  validation of the source and is not represented); a \<open>Uint8Array\<close> is a list of 8-bit
  words, whose stores truncate to a byte (\<open>word_of_int\<close>) and whose loads give a number in
  0..255 (\<open>uint\<close>). Every \<open>throw\<close> of the source is a value \<open>Inl e\<close> of \<open>error + 'a\<close>.

  A read outside a typed array does not throw in the source, it yields \<open>undefined\<close>. The
  model makes it the outcome \<open>UndefinedRead\<close> of the operation that reads. Where the
  source hands such a result to the next operation, the byte validation of that operation
  throws: \<open>operand\<close> below.
\<close>

type_synonym byte = "8 word"

datatype error =
    OutOfRange              \<comment> \<open>validateByte / validateUInt16\<close>
  | InvalidGenerator        \<comment> \<open>constructor: "Invalid generator ..."\<close>
  | DivisionByZero          \<comment> \<open>div: "division by zero"\<close>
  | NoInverseForZero        \<comment> \<open>inv: "no inverse for 0"\<close>
  | EmptyPolynomial         \<comment> \<open>evaluate: "cannot evaluate an empty polynomial"\<close>
  | InvalidEvaluationPoint  \<comment> \<open>evaluate: "cannot evaluate at x = 0"\<close>
  | EmptyInput              \<comment> \<open>interpolate: "at least one sample point is required"\<close>
  | UndefinedRead           \<comment> \<open>not a throw: a typed-array read outside the array, which
                                yields \<open>undefined\<close> in the source instead of a number\<close>

subsection \<open>Validation\<close>

definition validateByte :: "int \<Rightarrow> error + unit" where
  "validateByte n = (if n < 0 \<or> n > 255 then Inl OutOfRange else Inr ())"

definition validateUInt16 :: "int \<Rightarrow> error + unit" where
  "validateUInt16 n = (if n < 0 \<or> n > 65535 then Inl OutOfRange else Inr ())"

text \<open>
  The result of one field operation used as an operand of the next: an \<open>undefined\<close>
  fails the \<open>Number.isInteger\<close> test of \<open>validateByte\<close>.
\<close>

definition operand :: "error + int \<Rightarrow> error + int" where
  "operand r = (case r of Inl UndefinedRead \<Rightarrow> Inl OutOfRange | _ \<Rightarrow> r)"

subsection \<open>Typed arrays\<close>

text \<open>A read outside the array is \<open>undefined\<close> (here \<open>None\<close>); a write outside is ignored.\<close>

definition load :: "byte list \<Rightarrow> int \<Rightarrow> int option" where
  "load arr i = (if 0 \<le> i \<and> i < int (length arr) then Some (uint (arr ! nat i)) else None)"

definition store :: "byte list \<Rightarrow> int \<Rightarrow> int \<Rightarrow> byte list" where
  "store arr i v = (if 0 \<le> i \<and> i < int (length arr) then arr[nat i := word_of_int v] else arr)"

subsection \<open>mulByte: carry-less multiply and reduce\<close>

text \<open>
  The loop body of \<open>mulByte\<close>, on the numbers as the source has them: \<open>a\<close> is shifted left
  without being cut to a byte, only bit 7 is tested, and the low byte of \<open>poly\<close> is folded
  in. All values stay below \<open>2^16\<close>, so the 32-bit bitwise operators of the source agree
  with the operators on \<open>int\<close>.
\<close>

function mulByte_loop :: "int \<Rightarrow> nat \<Rightarrow> int \<Rightarrow> int \<Rightarrow> int \<Rightarrow> int" where
  "mulByte_loop poly i res a b =
     (if i < 8 then
        (let res' = (if b AND 1 \<noteq> 0 then res XOR a else res);
             hi = a AND 0x80;
             a' = push_bit 1 a;
             a'' = (if hi \<noteq> 0 then a' XOR (poly AND 0xff) else a');
             b' = drop_bit 1 b
         in mulByte_loop poly (Suc i) res' a'' b')
      else res)"
  by pat_completeness auto
termination
  by (relation "measure (\<lambda>(poly, i, res, a, b). 8 - i)") auto

definition mulByte :: "int \<Rightarrow> int \<Rightarrow> int \<Rightarrow> error + int" where
  "mulByte a b poly =
     (case validateByte a of Inl e \<Rightarrow> Inl e | Inr _ \<Rightarrow>
     (case validateByte b of Inl e \<Rightarrow> Inl e | Inr _ \<Rightarrow>
     (case validateUInt16 poly of Inl e \<Rightarrow> Inl e | Inr _ \<Rightarrow>
        Inr (mulByte_loop poly 0 0 a b AND 0xff))))"

subsection \<open>isGenerator\<close>

function isGenerator_loop :: "int \<Rightarrow> int \<Rightarrow> nat \<Rightarrow> int set \<Rightarrow> int \<Rightarrow> error + bool" where
  "isGenerator_loop poly gen i seen x =
     (if i < 255 then
        (if x \<in> seen then Inr False
         else (case mulByte x gen poly of
                 Inl e \<Rightarrow> Inl e
               | Inr x' \<Rightarrow> isGenerator_loop poly gen (Suc i) (insert x seen) x'))
      else Inr (card seen = 255))"
  by pat_completeness auto
termination
  by (relation "measure (\<lambda>(poly, gen, i, seen, x). 255 - i)") auto

definition isGenerator :: "int \<Rightarrow> int \<Rightarrow> error + bool" where
  "isGenerator poly gen =
     (case validateUInt16 poly of Inl e \<Rightarrow> Inl e | Inr _ \<Rightarrow>
     (case validateByte gen of Inl e \<Rightarrow> Inl e | Inr _ \<Rightarrow>
        isGenerator_loop poly gen 0 {} 1))"

subsection \<open>The field and its constructor\<close>

record Field =
  exp :: "byte list"
  log :: "byte list"
  poly :: int
  gen :: int

text \<open>First loop of the constructor: \<open>exp[i] = x; log[x] = i; x = mulByte(x, gen, poly)\<close>.\<close>

function fill_loop ::
  "int \<Rightarrow> int \<Rightarrow> nat \<Rightarrow> int \<Rightarrow> byte list \<Rightarrow> byte list \<Rightarrow> error + (byte list \<times> byte list)" where
  "fill_loop p g i x e l =
     (if i < 255 then
        (let e' = store e (int i) x;
             l' = store l x (int i)
         in (case mulByte x g p of
               Inl err \<Rightarrow> Inl err
             | Inr x' \<Rightarrow> fill_loop p g (Suc i) x' e' l'))
      else Inr (e, l))"
  by pat_completeness auto
termination
  by (relation "measure (\<lambda>(p, g, i, x, e, l). 255 - i)") auto

text \<open>
  Second loop: \<open>for (i = 0; i <= 255; i++) exp[i + 255] = exp[i]\<close>, in place. A read that
  gave \<open>undefined\<close> would be stored as 0.
\<close>

function dup_loop :: "nat \<Rightarrow> byte list \<Rightarrow> byte list" where
  "dup_loop i e =
     (if i \<le> 255 then
        dup_loop (Suc i) (store e (int i + 255) (case load e (int i) of Some v \<Rightarrow> v | None \<Rightarrow> 0))
      else e)"
  by pat_completeness auto
termination
  by (relation "measure (\<lambda>(i, e). 256 - i)") auto

definition GF256 :: "int \<Rightarrow> int \<Rightarrow> error + Field" where
  "GF256 p g =
     (case validateUInt16 p of Inl e \<Rightarrow> Inl e | Inr _ \<Rightarrow>
     (case validateByte g of Inl e \<Rightarrow> Inl e | Inr _ \<Rightarrow>
     (case isGenerator p g of Inl e \<Rightarrow> Inl e | Inr ok \<Rightarrow>
        if \<not> ok then Inl InvalidGenerator
        else (case fill_loop p g 0 1 (replicate 512 0) (replicate 256 0) of
                Inl e \<Rightarrow> Inl e
              | Inr (e, l) \<Rightarrow> Inr \<lparr>exp = dup_loop 0 e, log = l, poly = p, gen = g\<rparr>))))"

subsection \<open>Field arithmetic\<close>

definition mul :: "Field \<Rightarrow> int \<Rightarrow> int \<Rightarrow> error + int" where
  "mul f a b =
     (case validateByte a of Inl e \<Rightarrow> Inl e | Inr _ \<Rightarrow>
     (case validateByte b of Inl e \<Rightarrow> Inl e | Inr _ \<Rightarrow>
        if a = 0 \<or> b = 0 then Inr 0
        else (case (load (log f) a, load (log f) b) of
                (Some la, Some lb) \<Rightarrow>
                  (let logSum = la + lb
                   in (case load (exp f) logSum of Some v \<Rightarrow> Inr v | None \<Rightarrow> Inl UndefinedRead))
              | _ \<Rightarrow> Inl UndefinedRead)))"

definition div_gf :: "Field \<Rightarrow> int \<Rightarrow> int \<Rightarrow> error + int" where
  "div_gf f a b =
     (case validateByte a of Inl e \<Rightarrow> Inl e | Inr _ \<Rightarrow>
     (case validateByte b of Inl e \<Rightarrow> Inl e | Inr _ \<Rightarrow>
        if b = 0 then Inl DivisionByZero
        else if a = 0 then Inr 0
        else (case (load (log f) a, load (log f) b) of
                (Some la, Some lb) \<Rightarrow>
                  (let logDiff = la - lb;
                       logDiff' = (if logDiff < 0 then logDiff + 255 else logDiff)
                   in (case load (exp f) logDiff' of Some v \<Rightarrow> Inr v | None \<Rightarrow> Inl UndefinedRead))
              | _ \<Rightarrow> Inl UndefinedRead)))"

definition inv_gf :: "Field \<Rightarrow> int \<Rightarrow> error + int" where
  "inv_gf f a =
     (case validateByte a of Inl e \<Rightarrow> Inl e | Inr _ \<Rightarrow>
        if a = 0 then Inl NoInverseForZero
        else (case load (log f) a of
                Some la \<Rightarrow>
                  (case load (exp f) (255 - la) of Some v \<Rightarrow> Inr v | None \<Rightarrow> Inl UndefinedRead)
              | None \<Rightarrow> Inl UndefinedRead))"

definition add :: "Field \<Rightarrow> int \<Rightarrow> int \<Rightarrow> error + int" where
  "add f a b =
     (case validateByte a of Inl e \<Rightarrow> Inl e | Inr _ \<Rightarrow>
     (case validateByte b of Inl e \<Rightarrow> Inl e | Inr _ \<Rightarrow>
        Inr (a XOR b)))"

definition sub :: "Field \<Rightarrow> int \<Rightarrow> int \<Rightarrow> error + int" where
  "sub f a b =
     (case validateByte a of Inl e \<Rightarrow> Inl e | Inr _ \<Rightarrow>
     (case validateByte b of Inl e \<Rightarrow> Inl e | Inr _ \<Rightarrow>
        Inr (a XOR b)))"

subsection \<open>Polynomial evaluation\<close>

text \<open>
  The Horner loop of \<open>evaluate\<close>; the counter of the source runs from \<open>degree - 1\<close> down
  to 0, here \<open>n\<close> is that counter plus one.
\<close>

fun evaluate_loop :: "Field \<Rightarrow> byte list \<Rightarrow> int \<Rightarrow> nat \<Rightarrow> int \<Rightarrow> error + int" where
  "evaluate_loop f coefficients x 0 result = Inr result"
| "evaluate_loop f coefficients x (Suc i) result =
     (case operand (mul f result x) of Inl e \<Rightarrow> Inl e | Inr r \<Rightarrow>
     (case load coefficients (int i) of None \<Rightarrow> Inl OutOfRange | Some c \<Rightarrow>
     (case add f r c of Inl e \<Rightarrow> Inl e | Inr r' \<Rightarrow>
        evaluate_loop f coefficients x i r')))"

definition evaluate :: "Field \<Rightarrow> byte list \<Rightarrow> int \<Rightarrow> error + int" where
  "evaluate f coefficients x =
     (case validateByte x of Inl e \<Rightarrow> Inl e | Inr _ \<Rightarrow>
        if length coefficients = 0 then Inl EmptyPolynomial
        else if x = 0 then Inl InvalidEvaluationPoint
        else (let degree = length coefficients - 1
              in (case load coefficients (int degree) of
                    None \<Rightarrow> Inl UndefinedRead
                  | Some result \<Rightarrow> evaluate_loop f coefficients x degree result)))"

subsection \<open>Lagrange interpolation\<close>

text \<open>A sample point; the fields \<open>x\<close> and \<open>y\<close> of the source are \<open>px\<close> and \<open>py\<close> here.\<close>

record Point =
  px :: int
  py :: int

function basis_loop :: "Field \<Rightarrow> Point list \<Rightarrow> int \<Rightarrow> nat \<Rightarrow> nat \<Rightarrow> int \<Rightarrow> error + int" where
  "basis_loop f samples x i j basis =
     (if j < length samples then
        (if i = j then basis_loop f samples x i (Suc j) basis
         else
           (let si = samples ! i; sj = samples ! j
            in (case add f x (px sj) of Inl e \<Rightarrow> Inl e | Inr num \<Rightarrow>
               (case add f (px si) (px sj) of Inl e \<Rightarrow> Inl e | Inr den \<Rightarrow>
               (case operand (div_gf f num den) of Inl e \<Rightarrow> Inl e | Inr term \<Rightarrow>
               (case operand (mul f basis term) of Inl e \<Rightarrow> Inl e | Inr basis' \<Rightarrow>
                  basis_loop f samples x i (Suc j) basis'))))))
      else Inr basis)"
  by pat_completeness auto
termination
  by (relation "measure (\<lambda>(f, samples, x, i, j, basis). length samples - j)") auto

function interpolate_loop :: "Field \<Rightarrow> Point list \<Rightarrow> int \<Rightarrow> nat \<Rightarrow> int \<Rightarrow> error + int" where
  "interpolate_loop f samples x i result =
     (if i < length samples then
        (case basis_loop f samples x i 0 1 of Inl e \<Rightarrow> Inl e | Inr basis \<Rightarrow>
        (case operand (mul f (py (samples ! i)) basis) of Inl e \<Rightarrow> Inl e | Inr t \<Rightarrow>
        (case add f result t of Inl e \<Rightarrow> Inl e | Inr result' \<Rightarrow>
           interpolate_loop f samples x (Suc i) result')))
      else Inr result)"
  by pat_completeness auto
termination
  by (relation "measure (\<lambda>(f, samples, x, i, result). length samples - i)") auto

definition interpolate :: "Field \<Rightarrow> Point list \<Rightarrow> int \<Rightarrow> error + int" where
  "interpolate f samples x =
     (case validateByte x of Inl e \<Rightarrow> Inl e | Inr _ \<Rightarrow>
        if length samples = 0 then Inl EmptyInput
        else interpolate_loop f samples x 0 0)"

section \<open>The algebra behind the tables\<close>

text \<open>
  The definitions of this section are not code of the repository: they are the byte-level
  reading of \<open>mulByte\<close> used by the proofs. \<open>xtime m\<close> is one turn of the loop on the
  low byte of \<open>a\<close>, \<open>bmul m\<close> the product of two bytes for the reduction byte \<open>m\<close>
  (the low byte of \<open>poly\<close>), \<open>bpow m g n\<close> the \<open>n\<close>-th value of \<open>x\<close> in the loops of
  \<open>isGenerator\<close> and of the constructor.
\<close>

definition xtime :: "byte \<Rightarrow> byte \<Rightarrow> byte" where
  "xtime m a = push_bit 1 a XOR (if bit a 7 then m else 0)"

fun bmul_from :: "byte \<Rightarrow> nat \<Rightarrow> nat \<Rightarrow> byte \<Rightarrow> byte \<Rightarrow> byte" where
  "bmul_from m 0 k a b = 0"
| "bmul_from m (Suc n) k a b = (if bit b k then a else 0) XOR bmul_from m n (Suc k) (xtime m a) b"

definition bmul :: "byte \<Rightarrow> byte \<Rightarrow> byte \<Rightarrow> byte" where
  "bmul m a b = bmul_from m 8 0 a b"

fun bpow :: "byte \<Rightarrow> byte \<Rightarrow> nat \<Rightarrow> byte" where
  "bpow m g 0 = 1"
| "bpow m g (Suc n) = bmul m (bpow m g n) g"

definition generates :: "byte \<Rightarrow> byte \<Rightarrow> bool" where
  "generates m g = distinct (map (bpow m g) [0..<255])"

fun gen_power :: "int \<Rightarrow> int \<Rightarrow> nat \<Rightarrow> error + int" where
  "gen_power p c 0 = Inr 1"
| "gen_power p c (Suc n) =
     (case gen_power p c n of Inl e \<Rightarrow> Inl e | Inr x \<Rightarrow> mulByte x c p)"

definition valid_params :: "int \<Rightarrow> int \<Rightarrow> bool" where
  "valid_params p g = (0 \<le> p \<and> p \<le> 65535 \<and> 0 \<le> g \<and> g \<le> 255)"

text \<open>
  What the constructor establishes: \<open>g\<close> generates, the first 511 entries of \<open>exp\<close>
  are the powers of \<open>g\<close> with period 255, the last entry is still 0, and \<open>log\<close> maps each
  power below 255 to its exponent.
\<close>

definition wf_field :: "byte \<Rightarrow> byte \<Rightarrow> Field \<Rightarrow> bool" where
  "wf_field m g f \<longleftrightarrow>
     generates m g \<and> length (exp f) = 512 \<and> length (log f) = 256 \<and>
     (\<forall>k<511. exp f ! k = bpow m g (k mod 255)) \<and> exp f ! 511 = 0 \<and>
     (\<forall>j<255. log f ! unat (bpow m g j) = of_nat j) \<and> log f ! 0 = 0"

text \<open>
  Horner's rule and the sum of the monomials on bytes, and the same two written with the
  operations of a field as the specification words them: \<open>horner\<close> starts from the
  highest coefficient and folds \<open>add(mul(acc, x), c)\<close> down to the constant term,
  \<open>field_sum\<close> adds the products of each coefficient with the power of \<open>x\<close>.
\<close>

fun bhorner :: "byte \<Rightarrow> byte \<Rightarrow> byte \<Rightarrow> byte list \<Rightarrow> byte" where
  "bhorner m w r [] = r"
| "bhorner m w r (c # cs) = c XOR bmul m (bhorner m w r cs) w"

definition beval :: "byte \<Rightarrow> byte \<Rightarrow> byte list \<Rightarrow> byte" where
  "beval m w cs = bhorner m w 0 cs"

fun horner_fold :: "Field \<Rightarrow> int \<Rightarrow> int list \<Rightarrow> int \<Rightarrow> error + int" where
  "horner_fold f x [] acc = Inr acc"
| "horner_fold f x (c # cs) acc =
     (case mul f acc x of Inl e \<Rightarrow> Inl e | Inr t \<Rightarrow>
     (case add f t c of Inl e \<Rightarrow> Inl e | Inr acc' \<Rightarrow> horner_fold f x cs acc'))"

definition horner :: "Field \<Rightarrow> int list \<Rightarrow> int \<Rightarrow> error + int" where
  "horner f cs x =
     (case rev cs of [] \<Rightarrow> Inl EmptyPolynomial | lead # rest \<Rightarrow> horner_fold f x rest lead)"

fun field_power :: "Field \<Rightarrow> int \<Rightarrow> nat \<Rightarrow> error + int" where
  "field_power f x 0 = Inr 1"
| "field_power f x (Suc n) =
     (case field_power f x n of Inl e \<Rightarrow> Inl e | Inr v \<Rightarrow> mul f v x)"

fun field_sum :: "Field \<Rightarrow> int \<Rightarrow> nat \<Rightarrow> int list \<Rightarrow> error + int" where
  "field_sum f x i [] = Inr 0"
| "field_sum f x i (c # cs) =
     (case field_power f x i of Inl e \<Rightarrow> Inl e | Inr xp \<Rightarrow>
     (case mul f c xp of Inl e \<Rightarrow> Inl e | Inr t \<Rightarrow>
     (case field_sum f x (Suc i) cs of Inl e \<Rightarrow> Inl e | Inr s \<Rightarrow> add f t s)))"

text \<open>
  Division in the field, synthetic division of a polynomial by \<open>t - a\<close>, and the
  Lagrange interpolant on bytes: \<open>lbasis m x a ns\<close> is the product of
  \<open>(x - b) / (a - b)\<close> over the nodes \<open>b\<close> of \<open>ns\<close>, and \<open>lsum m x pre post\<close> adds, for
  every sample \<open>(b, y)\<close> of \<open>post\<close>, \<open>y\<close> times the basis value of \<open>b\<close> over all other
  nodes, those of \<open>pre\<close> and those of \<open>post\<close>. \<open>skip_at i j zs\<close> drops from \<open>zs\<close>, whose
  first element has index \<open>j\<close>, the element of index \<open>i\<close>, as the inner loop of
  \<open>interpolate\<close> does.
\<close>

definition binv :: "byte \<Rightarrow> byte \<Rightarrow> byte" where
  "binv m b = bpow m b 254"

definition bdiv :: "byte \<Rightarrow> byte \<Rightarrow> byte \<Rightarrow> byte" where
  "bdiv m a b = bmul m a (binv m b)"

fun sdiv :: "byte \<Rightarrow> byte \<Rightarrow> byte list \<Rightarrow> byte list" where
  "sdiv m a [] = []"
| "sdiv m a [c] = []"
| "sdiv m a (c # c' # cs) = beval m a (c' # cs) # sdiv m a (c' # cs)"

fun lbasis :: "byte \<Rightarrow> byte \<Rightarrow> byte \<Rightarrow> byte list \<Rightarrow> byte" where
  "lbasis m x a [] = 1"
| "lbasis m x a (b # ns) = bmul m (bdiv m (x XOR b) (a XOR b)) (lbasis m x a ns)"

fun lsum :: "byte \<Rightarrow> byte \<Rightarrow> byte list \<Rightarrow> (byte \<times> byte) list \<Rightarrow> byte" where
  "lsum m x pre [] = 0"
| "lsum m x pre ((b, y) # post) =
     bmul m y (lbasis m x b (pre @ map fst post)) XOR lsum m x (pre @ [b]) post"

definition node :: "Point \<Rightarrow> byte" where
  "node s = word_of_int (px s)"

definition sample_bytes :: "Point \<Rightarrow> byte \<times> byte" where
  "sample_bytes s = (word_of_int (px s), word_of_int (py s))"

definition byte_sample :: "Point \<Rightarrow> bool" where
  "byte_sample s = (0 \<le> px s \<and> px s \<le> 255 \<and> 0 \<le> py s \<and> py s \<le> 255)"

fun skip_at :: "nat \<Rightarrow> nat \<Rightarrow> 'a list \<Rightarrow> 'a list" where
  "skip_at i j [] = []"
| "skip_at i j (z # zs) = (if i = j then skip_at i (Suc j) zs else z # skip_at i (Suc j) zs)"

text \<open>The field of the tests and of the literal scenarios: polynomial 0x11B, generator 0x03.\<close>

definition AES_field :: Field where
  "AES_field = projr (GF256 0x11B 0x03)"

declare mulByte_loop.simps [simp del] isGenerator_loop.simps [simp del]
  fill_loop.simps [simp del] dup_loop.simps [simp del]
  basis_loop.simps [simp del] interpolate_loop.simps [simp del]

subsection \<open>mulByte computes the byte product\<close>

lemma and1_odd: "((k::int) AND 1 \<noteq> 0) = odd k"
  by (simp add: and_one_eq) presburger

lemma and128_bit: "((k::int) AND 0x80 \<noteq> 0) = bit k 7"
proof -
  have "(0x80::int) = 2 ^ 7" by simp
  then show ?thesis by (simp only: and_exp_eq_0_iff_not_bit) simp
qed

lemma word_and_255: "(word_of_int (k AND 0xff) :: byte) = word_of_int k"
proof -
  have "(0xff::int) = mask 8" by (simp add: mask_eq_exp_minus_1)
  then show ?thesis
    by (simp only: take_bit_eq_mask [symmetric]) (simp add: word_of_int_eq_iff)
qed

lemma xtime_word:
  "(word_of_int (if a AND 0x80 \<noteq> 0 then push_bit 1 a XOR (p AND 0xff) else push_bit 1 a) :: byte)
     = xtime (word_of_int p) (word_of_int a)"
proof -
  have p: "(word_of_int (p AND 0xff) :: byte) = word_of_int p"
    by (rule word_and_255)
  have s: "(word_of_int (push_bit 1 a) :: byte) = push_bit 1 (word_of_int a)"
    by (rule bit_word_eqI) (auto simp: bit_simps)
  have x: "(word_of_int (push_bit 1 a XOR (p AND 0xff)) :: byte) = push_bit 1 (word_of_int a) XOR word_of_int p"
    by (simp only: word_wi_log_defs(4) [symmetric] p s)
  have b: "bit (word_of_int a :: byte) 7 = bit a 7"
    by (simp add: bit_word_of_int_iff)
  show ?thesis
    unfolding xtime_def and128_bit b
    by (cases "bit a 7") (simp_all only: x s if_True if_False xor.right_neutral)
qed

lemma mulByte_loop_word:
  assumes "i \<le> 8" "bcur = drop_bit i b"
  shows "(word_of_int (mulByte_loop p i res a bcur) :: byte)
           = word_of_int res XOR bmul_from (word_of_int p) (8 - i) i (word_of_int a) (word_of_int b)"
  using assms
proof (induction p i res a bcur rule: mulByte_loop.induct)
  case (1 p i res a bcur)
  show ?case
  proof (cases "i < 8")
    case False
    with "1.prems" have "i = 8" by simp
    then show ?thesis by (simp add: mulByte_loop.simps [of p 8])
  next
    case True
    let ?res = "if bcur AND 1 \<noteq> 0 then res XOR a else res"
    let ?a = "if a AND 0x80 \<noteq> 0 then push_bit 1 a XOR (p AND 0xff) else push_bit 1 a"
    have step: "mulByte_loop p i res a bcur = mulByte_loop p (Suc i) ?res ?a (drop_bit 1 bcur)"
      using True by (subst mulByte_loop.simps) (simp add: Let_def)
    have d: "drop_bit 1 bcur = drop_bit (Suc i) b"
      using "1.prems"(2) by (simp add: drop_bit_drop_bit)
    have ih: "(word_of_int (mulByte_loop p (Suc i) ?res ?a (drop_bit 1 bcur)) :: byte)
        = word_of_int ?res XOR bmul_from (word_of_int p) (8 - Suc i) (Suc i) (word_of_int ?a) (word_of_int b)"
      using True d by (intro "1.IH" [OF True refl refl refl refl refl]) simp_all
    have "odd bcur = bit b i"
      using "1.prems"(2) by (simp add: bit_iff_odd_drop_bit)
    moreover have "bit (word_of_int b :: byte) i = bit b i"
      using True by (simp add: bit_word_of_int_iff)
    ultimately have o: "(bcur AND 1 \<noteq> 0) = bit (word_of_int b :: byte) i"
      by (simp only: and1_odd)
    have n: "8 - i = Suc (8 - Suc i)" using True by simp
    have r: "(word_of_int ?res :: byte) = word_of_int res XOR (if bit (word_of_int b :: byte) i then word_of_int a else 0)"
      unfolding o by (simp add: word_wi_log_defs)
    show ?thesis
      unfolding step ih n bmul_from.simps xtime_word r
      by (simp add: xor.assoc)
  qed
qed

lemma mulByte_bmul:
  assumes "0 \<le> a" "a \<le> 255" "0 \<le> b" "b \<le> 255" "0 \<le> p" "p \<le> 65535"
  shows "mulByte a b p = Inr (uint (bmul (word_of_int p) (word_of_int a) (word_of_int b)))"
proof -
  have "mulByte_loop p 0 0 a b AND 0xff = take_bit 8 (mulByte_loop p 0 0 a b)"
    by (simp add: take_bit_eq_mask mask_eq_exp_minus_1)
  also have "\<dots> = uint (word_of_int (mulByte_loop p 0 0 a b) :: byte)"
    by (simp add: uint_word_of_int_eq)
  also have "\<dots> = uint (bmul (word_of_int p) (word_of_int a) (word_of_int b))"
    using mulByte_loop_word [of 0 b b p 0 a] by (simp add: bmul_def)
  finally show ?thesis using assms
    by (simp add: mulByte_def validateByte_def validateUInt16_def)
qed


subsection \<open>The byte product is commutative, associative and distributes over XOR\<close>

lemma xtime_xor: "xtime m (a XOR b) = xtime m a XOR xtime m b"
proof -
  have "push_bit 1 (a XOR b) = push_bit 1 a XOR push_bit 1 b"
    by (rule push_bit_xor)
  moreover have "(if bit (a XOR b) 7 then m else 0)
      = (if bit a 7 then m else 0) XOR (if bit b 7 then m else 0)"
    by (simp add: bit_xor_iff)
  ultimately show ?thesis
    unfolding xtime_def by (simp only: xor.assoc xor.left_commute)
qed

lemma xtime_0: "xtime m 0 = 0"
  by (simp add: xtime_def)

lemma bmul_from_0_left: "bmul_from m n k 0 b = 0"
  by (induction n arbitrary: k) (simp_all add: xtime_0)

lemma bmul_from_0_right: "bmul_from m n k a 0 = 0"
  by (induction n arbitrary: k a) simp_all

lemma bmul_from_xor_left:
  "bmul_from m n k (a XOR a') b = bmul_from m n k a b XOR bmul_from m n k a' b"
proof (induction n arbitrary: k a a')
  case 0
  show ?case by simp
next
  case (Suc n)
  show ?case
    by (simp add: Suc.IH xtime_xor xor.assoc xor.left_commute)
qed

lemma bmul_from_xor_right:
  "bmul_from m n k a (b XOR b') = bmul_from m n k a b XOR bmul_from m n k a b'"
proof (induction n arbitrary: k a)
  case 0
  show ?case by simp
next
  case (Suc n)
  show ?case
    by (simp add: Suc.IH bit_xor_iff xor.assoc xor.left_commute)
qed

text \<open>A linear map that commutes with \<open>xtime\<close> commutes with multiplication.\<close>

lemma bmul_from_linear:
  assumes lin: "\<And>u v. G (u XOR v) = G u XOR G v"
    and com: "\<And>u. G (xtime m u) = xtime m (G u)"
  shows "G (bmul_from m n k a b) = bmul_from m n k (G a) b"
proof -
  have z: "G 0 = 0" using lin [of 0 0] by simp
  show ?thesis
  proof (induction n arbitrary: k a)
    case 0
    show ?case by (simp add: z)
  next
    case (Suc n)
    show ?case by (simp add: lin Suc.IH com z)
  qed
qed

lemma bmul_from_one:
  "k + n = 8 \<Longrightarrow> bmul_from m n k (push_bit k 1) b = push_bit k (drop_bit k b)"
proof (induction n arbitrary: k)
  case 0
  then show ?case by simp
next
  case (Suc n)
  have j: "(if bit b k then push_bit k 1 else 0) XOR push_bit (Suc k) (drop_bit (Suc k) b)
      = push_bit k (drop_bit k b)"
  proof (rule bit_word_eqI)
    fix i assume "i < LENGTH(8)"
    have "Suc k \<le> i \<longleftrightarrow> k \<le> i \<and> i \<noteq> k" by auto
    with \<open>i < LENGTH(8)\<close>
    show "bit ((if bit b k then push_bit k 1 else 0) XOR push_bit (Suc k) (drop_bit (Suc k) b)) i
        = bit (push_bit k (drop_bit k b)) i"
      by (cases "i = k")
        (auto simp add: bit_xor_iff bit_push_bit_iff bit_drop_bit_eq bit_exp_iff possible_bit_word
          simp del: push_bit_Suc drop_bit_Suc push_bit_of_Suc_0)
  qed
  show ?case
  proof (cases n)
    case 0
    with Suc.prems have "k = 7" by simp
    have z: "push_bit (Suc k) (drop_bit (Suc k) b) = 0"
      by (rule bit_word_eqI) (simp add: bit_simps \<open>k = 7\<close>)
    have "bmul_from m (Suc 0) k (push_bit k 1) b = (if bit b k then push_bit k 1 else 0) XOR 0"
      by (simp only: bmul_from.simps)
    also have "\<dots> = push_bit k (drop_bit k b)"
      using j by (simp only: z)
    finally show ?thesis by (simp only: 0)
  next
    case (Suc n')
    with Suc.prems have k: "k < 7" by simp
    have x: "xtime m (push_bit k 1) = push_bit (Suc k) 1"
      using k by (auto simp: xtime_def bit_simps push_bit_eq_mult)
    have ih: "bmul_from m n (Suc k) (push_bit (Suc k) 1) b = push_bit (Suc k) (drop_bit (Suc k) b)"
      using Suc.prems by (intro Suc.IH) simp
    have "bmul_from m (Suc n) k (push_bit k 1) b
        = (if bit b k then push_bit k 1 else 0) XOR bmul_from m n (Suc k) (xtime m (push_bit k 1)) b"
      by (simp only: bmul_from.simps)
    also have "\<dots> = push_bit k (drop_bit k b)"
      by (simp only: x ih j)
    finally show ?thesis .
  qed
qed

lemma bmul_1_left: "bmul m 1 b = b"
  using bmul_from_one [of 0 8 m b] by (simp add: bmul_def)

lemma bmul_1_right: "bmul m a 1 = a"
  by (simp add: bmul_def eval_nat_numeral bit_simps)

lemma bmul_0_left: "bmul m 0 b = 0"
  by (simp add: bmul_def bmul_from_0_left)

lemma bmul_0_right: "bmul m a 0 = 0"
  by (simp add: bmul_def bmul_from_0_right)

lemma bmul_xor_left: "bmul m (a XOR a') b = bmul m a b XOR bmul m a' b"
  by (simp add: bmul_def bmul_from_xor_left)

lemma bmul_xor_right: "bmul m a (b XOR b') = bmul m a b XOR bmul m a b'"
  by (simp add: bmul_def bmul_from_xor_right)

lemma bmul_xtime_left: "bmul m (xtime m a) b = xtime m (bmul m a b)"
  unfolding bmul_def
  by (rule bmul_from_linear [symmetric]) (simp_all add: xtime_xor)

lemma bmul_linear:
  assumes "\<And>u v. G (u XOR v) = G u XOR G v" "\<And>u. G (xtime m u) = xtime m (G u)"
  shows "G (bmul m a b) = bmul m (G a) b"
  unfolding bmul_def using assms by (rule bmul_from_linear)

lemma bmul_swap: "bmul m (bmul m a b) c = bmul m (bmul m a c) b"
  by (rule bmul_linear [where G = "\<lambda>u. bmul m u c"]) (simp_all add: bmul_xor_left bmul_xtime_left)

lemma bmul_commute: "bmul m a b = bmul m b a"
  using bmul_swap [of m 1 b a] by (simp add: bmul_1_left)

lemma bmul_assoc: "bmul m (bmul m a b) c = bmul m a (bmul m b c)"
proof -
  have "bmul m a (bmul m b c) = bmul m (bmul m b c) a" by (rule bmul_commute)
  also have "\<dots> = bmul m (bmul m b a) c" by (rule bmul_swap)
  also have "\<dots> = bmul m (bmul m a b) c" by (simp only: bmul_commute [of m b a])
  finally show ?thesis by simp
qed


subsection \<open>Powers of a generator\<close>

lemma generates_inj: "generates m g = inj_on (bpow m g) {..<255}"
  by (simp only: generates_def distinct_map distinct_upt set_upt lessThan_atLeast0 simp_thms)

lemma bpow_add: "bpow m g (i + j) = bmul m (bpow m g i) (bpow m g j)"
  by (induction j) (simp_all add: bmul_1_right bmul_assoc)

lemma byte_xor_cancel: "(a::byte) XOR c = b XOR c \<Longrightarrow> a = b"
proof -
  assume "a XOR c = b XOR c"
  then have "(a XOR c) XOR c = (b XOR c) XOR c" by simp
  then show "a = b" by (simp only: xor.assoc xor_self_eq xor.right_neutral)
qed

lemma byte_xor_eq_0: "(a::byte) XOR b = 0 \<longleftrightarrow> a = b"
proof
  assume "a XOR b = 0"
  then have "a XOR b = b XOR b" by simp
  then show "a = b" by (rule byte_xor_cancel)
qed simp

lemma card_bytes: "card (UNIV :: byte set) = 256"
  by (simp add: card_word)

lemma generates_kernel:
  assumes gen: "generates m g" and k: "bmul m k g = 0"
  shows "k = 0"
proof (rule ccontr)
  assume nz: "k \<noteq> 0"
  define K where "K = {v. bmul m v k = 0}"
  have pw: "bpow m g (Suc j) \<in> K" for j
  proof -
    have "bmul m (bpow m g (Suc j)) k = bmul m (bpow m g j) (bmul m g k)"
      by (simp add: bmul_assoc)
    also have "bmul m g k = 0" using k by (simp add: bmul_commute)
    finally show ?thesis by (simp add: K_def bmul_0_right)
  qed
  have inj: "inj_on (bpow m g) {..<255}" using gen by (simp add: generates_inj)
  have sub: "bpow m g ` {1..<255} \<subseteq> K"
  proof
    fix v assume "v \<in> bpow m g ` {1..<255}"
    then obtain j where "v = bpow m g j" "1 \<le> j" by auto
    then show "v \<in> K" using pw [of "j - 1"] by simp
  qed
  have "card (bpow m g ` {1..<255}) = 254"
    using inj by (subst card_image) (auto intro: inj_on_subset)
  then have cK: "254 \<le> card K"
    using card_mono [OF _ sub] by simp
  have one: "1 \<notin> K" using nz by (simp add: K_def bmul_1_left)
  have disj: "K \<inter> (\<lambda>v. v XOR 1) ` K = {}"
  proof (rule ccontr)
    assume "K \<inter> (\<lambda>v. v XOR 1) ` K \<noteq> {}"
    then obtain v where v: "v \<in> K" "v XOR 1 \<in> K" by auto
    then have "bmul m (v XOR (v XOR 1)) k = 0"
      by (simp only: bmul_xor_left [of m v "v XOR 1"]) (simp add: K_def)
    moreover have "v XOR (v XOR 1) = 1" by (simp add: xor.assoc [symmetric])
    ultimately show False using one by (simp add: K_def)
  qed
  have "inj_on (\<lambda>v. v XOR (1::byte)) K"
    by (rule inj_onI) (rule byte_xor_cancel)
  then have "card ((\<lambda>v. v XOR 1) ` K) = card K" by (rule card_image)
  then have "card (K \<union> (\<lambda>v. v XOR 1) ` K) = 2 * card K"
    using disj by (simp add: card_Un_disjoint)
  moreover have "card (K \<union> (\<lambda>v. v XOR 1) ` K) \<le> card (UNIV :: byte set)"
    by (rule card_mono) simp_all
  ultimately show False using cK by (simp add: card_bytes)
qed

lemma generates_cancel:
  assumes "generates m g" "bmul m u g = bmul m v g"
  shows "u = v"
proof -
  have "bmul m (u XOR v) g = 0"
    using assms(2) by (simp add: bmul_xor_left)
  with assms(1) have "u XOR v = 0" by (rule generates_kernel)
  then show ?thesis by (simp add: byte_xor_eq_0)
qed

lemma bpow_nonzero: "generates m g \<Longrightarrow> bpow m g n \<noteq> 0"
proof (induction n)
  case 0
  show ?case by simp
next
  case (Suc n)
  show ?case
  proof
    assume "bpow m g (Suc n) = 0"
    then have "bmul m (bpow m g n) g = 0" by simp
    with Suc.prems have "bpow m g n = 0" by (rule generates_kernel)
    with Suc show False by simp
  qed
qed

lemma bpow_range:
  assumes "generates m g"
  shows "bpow m g ` {..<255} = UNIV - {0}"
proof (rule card_subset_eq)
  show "finite (UNIV - {0::byte})" by simp
  show "bpow m g ` {..<255} \<subseteq> UNIV - {0}"
    using bpow_nonzero [OF assms] by auto
  have "card (bpow m g ` {..<255}) = 255"
    using assms by (simp add: generates_inj card_image)
  moreover have "card (UNIV - {0::byte}) = 255"
    by (simp add: card_Diff_singleton card_bytes)
  ultimately show "card (bpow m g ` {..<255}) = card (UNIV - {0::byte})" by simp
qed

lemma bpow_255:
  assumes gen: "generates m g"
  shows "bpow m g 255 = 1"
proof -
  have "bpow m g 255 \<in> UNIV - {0}" using bpow_nonzero [OF gen] by simp
  then obtain j where j: "j < 255" "bpow m g 255 = bpow m g j"
    unfolding bpow_range [OF gen, symmetric] by auto
  show ?thesis
  proof (cases j)
    case 0
    with j show ?thesis by simp
  next
    case (Suc j')
    have "bmul m (bpow m g 254) g = bpow m g (Suc 254)" by (simp only: bpow.simps)
    also have "\<dots> = bmul m (bpow m g j') g" using j Suc by simp
    finally have "bpow m g 254 = bpow m g j'" by (rule generates_cancel [OF gen])
    moreover have "inj_on (bpow m g) {..<255}" using gen by (simp add: generates_inj)
    ultimately have "254 = j'" using j Suc by (auto dest!: inj_onD)
    with j Suc show ?thesis by simp
  qed
qed

lemma bpow_mod:
  assumes gen: "generates m g"
  shows "bpow m g (n mod 255) = bpow m g n"
proof -
  have q: "bpow m g (255 * q) = 1" for q
  proof (induction q)
    case 0 show ?case by simp
  next
    case (Suc q)
    have "bpow m g (255 * Suc q) = bpow m g (255 * q + 255)" by (simp add: add.commute)
    then show ?case by (simp only: bpow_add Suc bpow_255 [OF gen] bmul_1_left)
  qed
  have "bpow m g n = bpow m g (n mod 255 + 255 * (n div 255))" by simp
  also have "\<dots> = bpow m g (n mod 255)" by (simp only: bpow_add q bmul_1_right)
  finally show ?thesis by simp
qed

lemma bpow_log:
  assumes gen: "generates m g" and v: "v \<noteq> 0"
  shows "\<exists>i<255. bpow m g i = v"
proof -
  from v have "v \<in> bpow m g ` {..<255}" by (simp add: bpow_range [OF gen])
  then show ?thesis by auto
qed

lemma bpow_bpow: "bpow m (bpow m g j) n = bpow m g (j * n)"
  by (induction n) (simp_all add: bpow_add bmul_commute)

lemma bpow_one: "bpow m 1 n = 1"
  by (induction n) (simp_all add: bmul_1_right)

lemma proper_divisors_255:
  "\<forall>e\<in>{1..<255::nat}. e dvd 255 \<longrightarrow> e dvd 15 \<or> e dvd 51 \<or> e dvd 85"
  by code_simp

text \<open>
  A byte whose 255th power is 1 while its 15th, 51st and 85th powers are not has 255
  distinct powers: its order divides 255 and none of the maximal proper divisors.
\<close>

lemma generates_by_order:
  assumes p255: "bpow m g 255 = 1"
    and p15: "bpow m g 15 \<noteq> 1" and p51: "bpow m g 51 \<noteq> 1" and p85: "bpow m g 85 \<noteq> 1"
  shows "generates m g"
proof -
  have no_order: False if d: "0 < d" "d < 255" and pd: "bpow m g d = 1" for d
  proof -
    define e where "e = gcd d 255"
    have "d \<noteq> 0" using d by simp
    from bezout_nat [OF this, of 255] obtain x y where xy: "d * x = 255 * y + e"
      unfolding e_def by blast
    have "bpow m g (d * x) = 1"
      using bpow_bpow [of m g d x] by (simp add: pd bpow_one)
    moreover have "bpow m g (255 * y) = 1"
      using bpow_bpow [of m g 255 y] by (simp add: p255 bpow_one)
    ultimately have pe: "bpow m g e = 1"
      by (simp add: xy bpow_add bmul_1_left)
    have "e dvd 255" by (simp add: e_def)
    have "e \<le> d" using d by (simp add: e_def gcd_le1_nat)
    moreover have "0 < e" using d by (simp add: e_def)
    ultimately have "e \<in> {1..<255}" using d by simp
    with proper_divisors_255 \<open>e dvd 255\<close> have "e dvd 15 \<or> e dvd 51 \<or> e dvd 85" by blast
    moreover have "bpow m g n = 1" if "e dvd n" for n
    proof -
      from that obtain k where "n = e * k" ..
      then show ?thesis using bpow_bpow [of m g e k] by (simp add: pe bpow_one)
    qed
    ultimately show False using p15 p51 p85 by blast
  qed
  have "inj_on (bpow m g) {..<255}"
  proof (rule inj_onI)
    fix i j assume ij: "i \<in> {..<255}" "j \<in> {..<255}" and eq: "bpow m g i = bpow m g j"
    have less: False if "i < j" "j < 255" "bpow m g i = bpow m g j" for i j
    proof -
      have "bpow m g (j - i) = bmul m (bpow m g (j - i)) (bpow m g (i + (255 - i)))"
        using that by (simp add: p255 bmul_1_right)
      also have "\<dots> = bmul m (bpow m g ((j - i) + i)) (bpow m g (255 - i))"
        by (simp only: bpow_add bmul_assoc)
      also have "\<dots> = bmul m (bpow m g i) (bpow m g (255 - i))"
        using that by simp
      also have "\<dots> = bpow m g (i + (255 - i))"
        by (simp only: bpow_add)
      also have "\<dots> = 1"
        using that(1,2) by (simp add: bmul_1_left p255)
      finally have "bpow m g (j - i) = 1" .
      moreover have "0 < j - i" "j - i < 255" using that(1,2) by simp_all
      ultimately show False using no_order [of "j - i"] by blast
    qed
    show "i = j"
    proof (rule ccontr)
      assume "i \<noteq> j"
      then consider "i < j" | "j < i" by linarith
      then show False using less [of i j] less [of j i] ij eq by cases auto
    qed
  qed
  then show ?thesis by (simp add: generates_inj)
qed


subsection \<open>isGenerator decides whether the 255 powers are distinct\<close>

lemma uint_byte_range: "0 \<le> uint (w::byte) \<and> uint w \<le> 255"
  using uint_lt2p [of w] by simp

lemma mulByte_uint:
  assumes "valid_params p g"
  shows "mulByte (uint (v::byte)) g p = Inr (uint (bmul (word_of_int p) v (word_of_int g)))"
  using assms uint_byte_range [of v]
  by (simp add: mulByte_bmul valid_params_def)

lemma gen_power_bpow:
  assumes "valid_params p g"
  shows "gen_power p g n = Inr (uint (bpow (word_of_int p) (word_of_int g) n))"
  by (induction n) (simp_all add: mulByte_uint [OF assms])

lemma isGenerator_loop_inj:
  assumes v: "valid_params p g"
    and "i \<le> 255"
    and "x = uint (bpow (word_of_int p) (word_of_int g) i)"
    and "seen = (\<lambda>j. uint (bpow (word_of_int p) (word_of_int g) j)) ` {..<i}"
    and "inj_on (bpow (word_of_int p) (word_of_int g)) {..<i}"
  shows "isGenerator_loop p g i seen x = Inr (inj_on (bpow (word_of_int p) (word_of_int g)) {..<255})"
  using assms(2-)
proof (induction "255 - i" arbitrary: i seen x)
  case 0
  then have i: "i = 255" by simp
  have "inj_on (\<lambda>j. uint (bpow (word_of_int p) (word_of_int g) j)) {..<i}"
    using "0.prems"(4) by (simp add: inj_on_def word_uint_eq_iff [symmetric])
  then have "card seen = i" using "0.prems"(3) by (simp add: card_image)
  then show ?case using i "0.prems"(4)
    by (subst isGenerator_loop.simps) simp
next
  case (Suc n)
  let ?pw = "bpow (word_of_int p) (word_of_int g)"
  from Suc.hyps have lt: "i < 255" by simp
  have mem: "(x \<in> seen) = (?pw i \<in> ?pw ` {..<i})"
    unfolding Suc.prems(2,3) by (simp add: image_iff word_uint_eq_iff [symmetric])
  show ?case
  proof (cases "x \<in> seen")
    case True
    then obtain j where j: "j < i" "?pw j = ?pw i"
      unfolding mem by auto
    then have "\<not> inj_on ?pw {..<255}"
      using lt by (auto simp: inj_on_def)
    then show ?thesis using lt True
      by (subst isGenerator_loop.simps) simp
  next
    case False
    have nx: "mulByte x g p = Inr (uint (?pw (Suc i)))"
      using Suc.prems(2) by (simp add: mulByte_uint [OF v])
    have new: "?pw i \<notin> ?pw ` {..<i}"
      using False unfolding mem .
    have "isGenerator_loop p g (Suc i) (insert x seen) (uint (?pw (Suc i))) = Inr (inj_on ?pw {..<255})"
    proof (rule Suc.hyps(1))
      show "n = 255 - Suc i" using Suc.hyps(2) by simp
      show "Suc i \<le> 255" using lt by simp
      show "uint (?pw (Suc i)) = uint (?pw (Suc i))" ..
      show "insert x seen = (\<lambda>j. uint (?pw j)) ` {..<Suc i}"
        using Suc.prems(2,3) by (simp add: lessThan_Suc)
      show "inj_on ?pw {..<Suc i}"
        using Suc.prems(4) new by (simp add: lessThan_Suc)
    qed
    then show ?thesis using lt False nx
      by (subst isGenerator_loop.simps) simp
  qed
qed

lemma isGenerator_generates:
  assumes "valid_params p g"
  shows "isGenerator p g = Inr (generates (word_of_int p) (word_of_int g))"
proof -
  have "isGenerator_loop p g 0 {} 1 = Inr (inj_on (bpow (word_of_int p) (word_of_int g)) {..<255})"
    by (rule isGenerator_loop_inj [OF assms]) simp_all
  then show ?thesis using assms
    by (simp add: isGenerator_def validateUInt16_def validateByte_def valid_params_def generates_inj)
qed

lemma isGenerator_invalid:
  assumes "\<not> valid_params p g"
  shows "isGenerator p g = Inl OutOfRange"
  using assms by (auto simp: isGenerator_def validateUInt16_def validateByte_def valid_params_def)


subsection \<open>The two loops of the constructor\<close>

lemma store_nth:
  "i < length arr \<Longrightarrow> store arr (int i) (uint v) = arr[i := v]"
  by (simp add: store_def)

lemma load_nth:
  "i < length arr \<Longrightarrow> load arr (int i) = Some (uint (arr ! i))"
  by (simp add: load_def)

lemma unat_byte_less: "unat (w::byte) < 256"
  using unsigned_less [of w] by simp

lemma store_log:
  assumes "length l = 256" "i < 256"
  shows "store l (uint (w::byte)) (int i) = l[unat w := of_nat i]"
proof -
  have "uint w < 256" using uint_lt2p [of w] by simp
  then show ?thesis using assms by (simp add: store_def)
qed

lemma fill_loop_tables:
  assumes v: "valid_params p g"
    and inj: "inj_on (bpow (word_of_int p) (word_of_int g)) {..<255}"
    and "i \<le> 255"
    and "x = uint (bpow (word_of_int p) (word_of_int g) i)"
    and "length e = 512" "length l = 256"
  shows "\<exists>e' l'. fill_loop p g i x e l = Inr (e', l') \<and> length e' = 512 \<and> length l' = 256
      \<and> (\<forall>k<512. e' ! k = (if i \<le> k \<and> k < 255 then bpow (word_of_int p) (word_of_int g) k else e ! k))
      \<and> (\<forall>j. i \<le> j \<and> j < 255 \<longrightarrow> l' ! unat (bpow (word_of_int p) (word_of_int g) j) = of_nat j)
      \<and> (\<forall>w. (\<forall>j. i \<le> j \<and> j < 255 \<longrightarrow> bpow (word_of_int p) (word_of_int g) j \<noteq> w) \<longrightarrow> l' ! unat w = l ! unat w)"
  using assms(3-)
proof (induction "255 - i" arbitrary: i x e l)
  case 0
  then have "i = 255" by simp
  moreover have "fill_loop p g 255 x e l = Inr (e, l)" by (subst fill_loop.simps) simp
  ultimately show ?case using "0.prems" by auto
next
  case (Suc n)
  let ?pw = "bpow (word_of_int p) (word_of_int g)"
  from Suc.hyps have lt: "i < 255" by simp
  let ?e = "e[i := ?pw i]" and ?l = "l[unat (?pw i) := of_nat i]"
  have se: "store e (int i) x = ?e"
    using Suc.prems lt by (simp add: store_nth)
  have sl: "store l x (int i) = ?l"
    using Suc.prems lt by (simp add: store_log)
  have nx: "mulByte x g p = Inr (uint (?pw (Suc i)))"
    using Suc.prems(2) by (simp add: mulByte_uint [OF v])
  have step: "fill_loop p g i x e l = fill_loop p g (Suc i) (uint (?pw (Suc i))) ?e ?l"
    using lt by (subst fill_loop.simps) (simp add: se sl nx Let_def)
  have "\<exists>e' l'. fill_loop p g (Suc i) (uint (?pw (Suc i))) ?e ?l = Inr (e', l') \<and> length e' = 512 \<and> length l' = 256
      \<and> (\<forall>k<512. e' ! k = (if Suc i \<le> k \<and> k < 255 then ?pw k else ?e ! k))
      \<and> (\<forall>j. Suc i \<le> j \<and> j < 255 \<longrightarrow> l' ! unat (?pw j) = of_nat j)
      \<and> (\<forall>w. (\<forall>j. Suc i \<le> j \<and> j < 255 \<longrightarrow> ?pw j \<noteq> w) \<longrightarrow> l' ! unat w = ?l ! unat w)"
    using Suc.hyps(2) lt Suc.prems by (intro Suc.hyps(1)) simp_all
  then obtain e' l' where r: "fill_loop p g (Suc i) (uint (?pw (Suc i))) ?e ?l = Inr (e', l')"
      "length e' = 512" "length l' = 256"
      and E0: "\<forall>k<512. e' ! k = (if Suc i \<le> k \<and> k < 255 then ?pw k else ?e ! k)"
      and L10: "\<forall>j. Suc i \<le> j \<and> j < 255 \<longrightarrow> l' ! unat (?pw j) = of_nat j"
      and L20: "\<forall>w. (\<forall>j. Suc i \<le> j \<and> j < 255 \<longrightarrow> ?pw j \<noteq> w) \<longrightarrow> l' ! unat w = ?l ! unat w"
    by (elim exE conjE)
  have E: "e' ! k = (if Suc i \<le> k \<and> k < 255 then ?pw k else ?e ! k)" if "k < 512" for k
    using E0 that by simp
  have L1: "l' ! unat (?pw j) = of_nat j" if "Suc i \<le> j" "j < 255" for j
    using L10 that by simp
  have L2: "l' ! unat w = ?l ! unat w" if "\<And>j. Suc i \<le> j \<Longrightarrow> j < 255 \<Longrightarrow> ?pw j \<noteq> w" for w
    using L20 that by simp
  have E': "e' ! k = (if i \<le> k \<and> k < 255 then ?pw k else e ! k)" if "k < 512" for k
    using E [OF that] Suc.prems(3) lt by (cases "k = i") auto
  have L1': "l' ! unat (?pw j) = of_nat j" if "i \<le> j" "j < 255" for j
  proof (cases "j = i")
    case False
    with that show ?thesis by (intro L1) simp_all
  next
    case True
    have "?pw j' \<noteq> ?pw i" if "Suc i \<le> j'" "j' < 255" for j'
      using inj_onD [OF inj, of j' i] that lt by auto
    then have "l' ! unat (?pw i) = ?l ! unat (?pw i)" by (rule L2)
    also have "\<dots> = of_nat i" using Suc.prems(4) unat_byte_less [of "?pw i"] by simp
    finally show ?thesis using True by simp
  qed
  have L2': "l' ! unat w = l ! unat w" if "\<And>j. i \<le> j \<Longrightarrow> j < 255 \<Longrightarrow> ?pw j \<noteq> w" for w
  proof -
    have "l' ! unat w = ?l ! unat w" using that by (intro L2) simp_all
    moreover have "?pw i \<noteq> w" using that [of i] lt by simp
    then have "unat (?pw i) \<noteq> unat w" by (simp add: word_unat_eq_iff)
    ultimately show ?thesis by simp
  qed
  show ?case unfolding step r
  proof (intro exI conjI allI impI)
    show "Inr (e', l') = Inr (e', l')" ..
    show "length e' = 512" by (rule r)
    show "length l' = 256" by (rule r)
    show "e' ! k = (if i \<le> k \<and> k < 255 then ?pw k else e ! k)" if "k < 512" for k
      using that by (rule E')
    show "l' ! unat (?pw j) = of_nat j" if "i \<le> j \<and> j < 255" for j
      using that by (intro L1') simp_all
    show "l' ! unat w = l ! unat w" if "\<forall>j. i \<le> j \<and> j < 255 \<longrightarrow> ?pw j \<noteq> w" for w
      using that by (intro L2') simp
  qed
qed

lemma dup_loop_nth:
  assumes "length e = 512" "1 \<le> i" "i \<le> 256"
  shows "length (dup_loop i e) = 512 \<and>
    (\<forall>k<512. dup_loop i e ! k = (if 255 + i \<le> k \<and> k \<le> 510 then e ! (k - 255) else e ! k))"
  using assms
proof (induction "256 - i" arbitrary: i e)
  case 0
  then have "i = 256" by simp
  moreover have "dup_loop 256 e = e" by (subst dup_loop.simps) simp
  ultimately show ?case using "0.prems" by auto
next
  case (Suc n)
  then have lt: "i \<le> 255" by simp
  let ?e = "e[i + 255 := e ! i]"
  have "store e (int i + 255) (case load e (int i) of Some v \<Rightarrow> v | None \<Rightarrow> 0) = ?e"
    using lt Suc.prems(1) store_nth [of "i + 255" e "e ! i"] by (simp add: load_nth add.commute)
  then have step: "dup_loop i e = dup_loop (Suc i) ?e"
    using lt by (subst dup_loop.simps) simp
  have ih: "length (dup_loop (Suc i) ?e) = 512 \<and>
    (\<forall>k<512. dup_loop (Suc i) ?e ! k = (if 255 + Suc i \<le> k \<and> k \<le> 510 then ?e ! (k - 255) else ?e ! k))"
    using Suc.hyps(2) lt Suc.prems by (intro Suc.hyps(1)) simp_all
  show ?case unfolding step
  proof (intro conjI allI impI)
    show "length (dup_loop (Suc i) ?e) = 512" using ih by simp
    fix k :: nat assume k: "k < 512"
    with ih have "dup_loop (Suc i) ?e ! k = (if 255 + Suc i \<le> k \<and> k \<le> 510 then ?e ! (k - 255) else ?e ! k)"
      by simp
    also have "\<dots> = (if 255 + i \<le> k \<and> k \<le> 510 then e ! (k - 255) else e ! k)"
      using k lt Suc.prems(1,2) by (cases "k = 255 + i") (auto simp: nth_list_update)
    finally show "dup_loop (Suc i) ?e ! k = (if 255 + i \<le> k \<and> k \<le> 510 then e ! (k - 255) else e ! k)" .
  qed
qed

lemma dup_loop_0:
  assumes "length e = 512"
  shows "length (dup_loop 0 e) = 512 \<and>
    (\<forall>k<512. dup_loop 0 e ! k =
       (if k = 255 \<or> k = 510 then e ! 0 else if 256 \<le> k \<and> k < 510 then e ! (k - 255) else e ! k))"
proof -
  let ?e = "e[255 := e ! 0]"
  have "store e (int 0 + 255) (case load e (int 0) of Some v \<Rightarrow> v | None \<Rightarrow> 0) = ?e"
    using assms store_nth [of 255 e "e ! 0"] load_nth [of 0 e] by simp
  then have step: "dup_loop 0 e = dup_loop (Suc 0) ?e"
    by (subst dup_loop.simps) simp
  have d: "length (dup_loop (Suc 0) ?e) = 512 \<and>
    (\<forall>k<512. dup_loop (Suc 0) ?e ! k = (if 255 + Suc 0 \<le> k \<and> k \<le> 510 then ?e ! (k - 255) else ?e ! k))"
    using assms by (intro dup_loop_nth) simp_all
  show ?thesis unfolding step
  proof (intro conjI allI impI)
    show "length (dup_loop (Suc 0) ?e) = 512" using d by simp
    fix k :: nat assume k: "k < 512"
    with d have "dup_loop (Suc 0) ?e ! k = (if 255 + Suc 0 \<le> k \<and> k \<le> 510 then ?e ! (k - 255) else ?e ! k)"
      by simp
    also have "\<dots> = (if k = 255 \<or> k = 510 then e ! 0 else if 256 \<le> k \<and> k < 510 then e ! (k - 255) else e ! k)"
      using k assms by (auto simp: nth_list_update)
    finally show "dup_loop (Suc 0) ?e ! k =
       (if k = 255 \<or> k = 510 then e ! 0 else if 256 \<le> k \<and> k < 510 then e ! (k - 255) else e ! k)" .
  qed
qed

subsection \<open>What a constructed field holds\<close>

lemma GF256_result:
  assumes v: "valid_params p g" and gen: "generates (word_of_int p) (word_of_int g)"
  shows "\<exists>f. GF256 p g = Inr f \<and> wf_field (word_of_int p) (word_of_int g) f \<and> poly f = p \<and> gen f = g"
proof -
  let ?pw = "bpow (word_of_int p) (word_of_int g)"
  let ?e0 = "replicate 512 (0::byte)" and ?l0 = "replicate 256 (0::byte)"
  have inj: "inj_on ?pw {..<255}" using gen by (simp add: generates_inj)
  have "\<exists>e' l'. fill_loop p g 0 1 ?e0 ?l0 = Inr (e', l') \<and> length e' = 512 \<and> length l' = 256
      \<and> (\<forall>k<512. e' ! k = (if 0 \<le> k \<and> k < 255 then ?pw k else ?e0 ! k))
      \<and> (\<forall>j. 0 \<le> j \<and> j < 255 \<longrightarrow> l' ! unat (?pw j) = of_nat j)
      \<and> (\<forall>w. (\<forall>j. 0 \<le> j \<and> j < 255 \<longrightarrow> ?pw j \<noteq> w) \<longrightarrow> l' ! unat w = ?l0 ! unat w)"
    by (rule fill_loop_tables [OF v inj]) simp_all
  then obtain e' l' where r: "fill_loop p g 0 1 ?e0 ?l0 = Inr (e', l')"
      and len: "length e' = 512" "length l' = 256"
      and E0: "\<forall>k<512. e' ! k = (if 0 \<le> k \<and> k < 255 then ?pw k else ?e0 ! k)"
      and L10: "\<forall>j. 0 \<le> j \<and> j < 255 \<longrightarrow> l' ! unat (?pw j) = of_nat j"
      and L20: "\<forall>w. (\<forall>j. 0 \<le> j \<and> j < 255 \<longrightarrow> ?pw j \<noteq> w) \<longrightarrow> l' ! unat w = ?l0 ! unat w"
    by (elim exE conjE)
  have E: "e' ! k = (if k < 255 then ?pw k else 0)" if "k < 512" for k
    using E0 that by simp
  let ?f = "\<lparr>exp = dup_loop 0 e', log = l', poly = p, gen = g\<rparr>"
  have c: "GF256 p g = Inr ?f"
    using v gen by (simp add: GF256_def isGenerator_generates [OF v] r validateUInt16_def validateByte_def valid_params_def)
  have d: "length (dup_loop 0 e') = 512"
    and D: "\<And>k. k < 512 \<Longrightarrow> dup_loop 0 e' ! k =
       (if k = 255 \<or> k = 510 then e' ! 0 else if 256 \<le> k \<and> k < 510 then e' ! (k - 255) else e' ! k)"
    using dup_loop_0 [OF len(1)] by simp_all
  have X: "dup_loop 0 e' ! k = ?pw (k mod 255)" if "k < 511" for k
  proof -
    have "k < 255 \<or> k = 255 \<or> (256 \<le> k \<and> k < 510) \<or> k = 510" using that by arith
    then consider "k < 255" | "k = 255" | "256 \<le> k" "k < 510" | "k = 510" by blast
    then show ?thesis
    proof cases
      case 1 then show ?thesis using D [of k] E [of k] by simp
    next
      case 2 then show ?thesis using D [of k] E [of 0] by simp
    next
      case 3
      then have "k mod 255 = k - 255" by (simp add: mod_if)
      with 3 show ?thesis using D [of k] E [of "k - 255"] by simp
    next
      case 4 then show ?thesis using D [of k] E [of 0] by simp
    qed
  qed
  have Y: "dup_loop 0 e' ! 511 = 0" using D [of 511] E [of 511] by simp
  have "?pw j \<noteq> 0" for j using gen by (rule bpow_nonzero)
  then have Z: "l' ! 0 = 0" using L20 [rule_format, of 0] by simp
  have "wf_field (word_of_int p) (word_of_int g) ?f"
    unfolding wf_field_def using gen d len X Y Z L10 by simp
  with c show ?thesis by (intro exI [of _ ?f]) simp
qed

lemma GF256_Inr:
  assumes "GF256 p g = Inr f"
  shows "valid_params p g \<and> wf_field (word_of_int p) (word_of_int g) f \<and> poly f = p \<and> gen f = g"
proof -
  have v: "valid_params p g"
    using assms by (auto simp: GF256_def validateUInt16_def validateByte_def valid_params_def split: if_splits)
  have gen: "generates (word_of_int p) (word_of_int g)"
    using assms v
    by (auto simp: GF256_def isGenerator_generates [OF v] validateUInt16_def validateByte_def valid_params_def
        split: if_splits)
  from GF256_result [OF v gen] assms v show ?thesis by auto
qed

subsection \<open>mul, div and inv on a constructed field\<close>

lemma operand_Inr [simp]: "operand (Inr v) = Inr v"
  by (simp add: operand_def)

lemma uint_byte_eq_0: "(uint (a::byte) = 0) = (a = 0)"
  by (simp add: uint_0_iff)

lemma uint_of_nat_byte: "j < 256 \<Longrightarrow> uint (of_nat j :: byte) = int j"
  by (simp add: uint_nat unat_of_nat)

lemma wf_load_exp:
  assumes "wf_field m g f" "k < 511"
  shows "load (exp f) (int k) = Some (uint (bpow m g (k mod 255)))"
  using assms by (simp add: wf_field_def load_nth)

lemma wf_load_exp_511:
  assumes "wf_field m g f"
  shows "load (exp f) 511 = Some 0"
  using assms load_nth [of 511 "exp f"] by (simp add: wf_field_def)

lemma wf_load_log:
  assumes "wf_field m g f" "j < 255"
  shows "load (log f) (uint (bpow m g j)) = Some (int j)"
proof -
  let ?v = "bpow m g j"
  have "load (log f) (int (unat ?v)) = Some (uint (log f ! unat ?v))"
    using assms unat_byte_less [of ?v] by (intro load_nth) (simp add: wf_field_def)
  moreover have "log f ! unat ?v = of_nat j" using assms by (simp add: wf_field_def)
  ultimately show ?thesis using assms(2) by (simp add: uint_of_nat_byte)
qed

lemma wf_log_ex:
  assumes "wf_field m g f" "v \<noteq> 0"
  shows "\<exists>j<255. bpow m g j = v \<and> load (log f) (uint v) = Some (int j)"
proof -
  from assms have "generates m g" by (simp add: wf_field_def)
  from bpow_log [OF this assms(2)] obtain j where "j < 255" "bpow m g j = v" by blast
  with wf_load_log [OF assms(1), of j] show ?thesis by auto
qed

lemma wf_mul:
  assumes wf: "wf_field m g f"
  shows "mul f (uint a) (uint b) = Inr (uint (bmul m a b))"
proof (cases "a = 0 \<or> b = 0")
  case True
  then show ?thesis using uint_byte_range [of a] uint_byte_range [of b]
    by (auto simp: mul_def validateByte_def bmul_0_left bmul_0_right)
next
  case False
  from wf have gen: "generates m g" by (simp add: wf_field_def)
  from False wf_log_ex [OF wf] obtain i j where
    i: "i < 255" "bpow m g i = a" "load (log f) (uint a) = Some (int i)" and
    j: "j < 255" "bpow m g j = b" "load (log f) (uint b) = Some (int j)"
    by blast
  have "load (exp f) (int (i + j)) = Some (uint (bpow m g ((i + j) mod 255)))"
    using i(1) j(1) by (intro wf_load_exp [OF wf]) simp
  also have "bpow m g ((i + j) mod 255) = bmul m a b"
    by (simp only: bpow_mod [OF gen] bpow_add i(2) j(2))
  finally show ?thesis
    using False uint_byte_range [of a] uint_byte_range [of b] i(3) j(3)
    by (simp add: mul_def validateByte_def uint_byte_eq_0)
qed

lemma wf_div_ex:
  assumes wf: "wf_field m g f" and b: "b \<noteq> 0"
  shows "\<exists>c. div_gf f (uint a) (uint b) = Inr (uint c) \<and> bmul m c b = a"
proof (cases "a = 0")
  case True
  then show ?thesis using b uint_byte_range [of b]
    by (intro exI [of _ 0]) (simp add: div_gf_def validateByte_def bmul_0_left uint_byte_eq_0)
next
  case False
  from wf have gen: "generates m g" by (simp add: wf_field_def)
  from False b wf_log_ex [OF wf] obtain i j where
    i: "i < 255" "bpow m g i = a" "load (log f) (uint a) = Some (int i)" and
    j: "j < 255" "bpow m g j = b" "load (log f) (uint b) = Some (int j)"
    by blast
  define d where "d = (if i < j then i + 255 - j else i - j)"
  have d: "d < 255" "(if int i - int j < 0 then int i - int j + 255 else int i - int j) = int d"
    using i(1) j(1) by (auto simp: d_def)
  have "(d + j) mod 255 = i" using i(1) j(1) by (auto simp: d_def mod_if)
  then have "bpow m g (d + j) = bpow m g i" using bpow_mod [OF gen, of "d + j"] by simp
  then have c: "bmul m (bpow m g d) b = a" by (simp only: bpow_add i(2) j(2))
  have "load (exp f) (int d) = Some (uint (bpow m g (d mod 255)))"
    using d(1) by (intro wf_load_exp [OF wf]) simp
  then have "load (exp f) (int d) = Some (uint (bpow m g d))" using d(1) by simp
  then have "div_gf f (uint a) (uint b) = Inr (uint (bpow m g d))"
    using False b uint_byte_range [of a] uint_byte_range [of b] i(3) j(3) d(2)
    by (simp add: div_gf_def validateByte_def uint_byte_eq_0 Let_def)
  with c show ?thesis by blast
qed

lemma wf_inv_ex:
  assumes wf: "wf_field m g f" and a: "a \<noteq> 0"
  shows "\<exists>c. inv_gf f (uint a) = Inr (uint c) \<and> bmul m a c = 1 \<and> c \<noteq> 0"
proof -
  from wf have gen: "generates m g" by (simp add: wf_field_def)
  from a wf_log_ex [OF wf] obtain i where
    i: "i < 255" "bpow m g i = a" "load (log f) (uint a) = Some (int i)"
    by blast
  have e: "load (exp f) (int (255 - i)) = Some (uint (bpow m g ((255 - i) mod 255)))"
    by (intro wf_load_exp [OF wf]) simp
  have "int (255 - i) = 255 - int i" using i(1) by simp
  with e have "inv_gf f (uint a) = Inr (uint (bpow m g ((255 - i) mod 255)))"
    using a uint_byte_range [of a] i(3)
    by (simp add: inv_gf_def validateByte_def uint_byte_eq_0)
  moreover have "bmul m a (bpow m g ((255 - i) mod 255)) = bpow m g (i + (255 - i))"
    by (simp only: bpow_mod [OF gen] bpow_add i(2))
  then have "bmul m a (bpow m g ((255 - i) mod 255)) = 1"
    using i(1) bpow_255 [OF gen] by simp
  moreover have "bpow m g ((255 - i) mod 255) \<noteq> 0" using gen by (rule bpow_nonzero)
  ultimately show ?thesis by blast
qed

lemma bmul_cancel:
  assumes wf: "wf_field m g f" and b: "b \<noteq> 0" and eq: "bmul m c b = bmul m c' b"
  shows "c = c'"
proof -
  from wf_inv_ex [OF wf b] obtain r where r: "bmul m b r = 1" by blast
  have "c = bmul m c (bmul m b r)" by (simp add: r bmul_1_right)
  also have "\<dots> = bmul m c' (bmul m b r)" by (simp only: bmul_assoc [symmetric] eq)
  also have "\<dots> = c'" by (simp add: r bmul_1_right)
  finally show ?thesis .
qed

lemma int_byte: "0 \<le> a \<Longrightarrow> a \<le> 255 \<Longrightarrow> uint (word_of_int a :: byte) = a"
  by (simp add: uint_word_of_int_eq take_bit_int_eq_self)

lemma wf_take_exp:
  assumes "wf_field m g f"
  shows "take 255 (exp f) = map (bpow m g) [0..<255]"
proof (rule nth_equalityI)
  show "length (take 255 (exp f)) = length (map (bpow m g) [0..<255])"
    using assms by (simp add: wf_field_def)
  fix i assume "i < length (take 255 (exp f))"
  then have i: "i < 255" by simp
  then have "exp f ! i = bpow m g (i mod 255)" using assms by (simp add: wf_field_def)
  then show "take 255 (exp f) ! i = map (bpow m g) [0..<255] ! i"
    using i by simp
qed

lemma uint_byte_ge_1: "(w::byte) \<noteq> 0 \<Longrightarrow> 1 \<le> uint w"
  using uint_byte_range [of w] uint_byte_eq_0 [of w] by linarith

lemma mul_invalid:
  "\<not> (0 \<le> a \<and> a \<le> 255 \<and> 0 \<le> b \<and> b \<le> 255) \<Longrightarrow> mul f a b = Inl OutOfRange"
  by (auto simp: mul_def validateByte_def)

lemma div_invalid:
  "\<not> (0 \<le> a \<and> a \<le> 255 \<and> 0 \<le> b \<and> b \<le> 255) \<Longrightarrow> div_gf f a b = Inl OutOfRange"
  by (auto simp: div_gf_def validateByte_def)

lemma inv_invalid:
  "\<not> (0 \<le> a \<and> a \<le> 255) \<Longrightarrow> inv_gf f a = Inl OutOfRange"
  by (auto simp: inv_gf_def validateByte_def)

text \<open>The reads that \<open>div\<close> performs on a constructed field.\<close>

lemma wf_div_reads:
  assumes wf: "wf_field m g f" and a: "(a::byte) \<noteq> 0" and b: "(b::byte) \<noteq> 0"
  shows "\<exists>i j d. i < 255 \<and> j < 255 \<and> d < 255
      \<and> load (log f) (uint a) = Some (int i) \<and> load (log f) (uint b) = Some (int j)
      \<and> (if int i - int j < 0 then int i - int j + 255 else int i - int j) = int d
      \<and> load (exp f) (int d) = Some (uint (bpow m g d))
      \<and> div_gf f (uint a) (uint b) = Inr (uint (bpow m g d))"
proof -
  from wf_log_ex [OF wf a] wf_log_ex [OF wf b] obtain i j where
    i: "i < 255" "load (log f) (uint a) = Some (int i)" and
    j: "j < 255" "load (log f) (uint b) = Some (int j)"
    by blast
  define d where "d = (if i < j then i + 255 - j else i - j)"
  have d: "d < 255" "(if int i - int j < 0 then int i - int j + 255 else int i - int j) = int d"
    using i(1) j(1) by (auto simp: d_def)
  have "load (exp f) (int d) = Some (uint (bpow m g (d mod 255)))"
    using d(1) by (intro wf_load_exp [OF wf]) simp
  then have e: "load (exp f) (int d) = Some (uint (bpow m g d))" using d(1) by simp
  then have "div_gf f (uint a) (uint b) = Inr (uint (bpow m g d))"
    using a b uint_byte_range [of a] uint_byte_range [of b] i(2) j(2) d(2)
    by (simp add: div_gf_def validateByte_def uint_byte_eq_0 Let_def)
  with i j d e show ?thesis by blast
qed

subsection \<open>evaluate is Horner's rule on bytes\<close>

lemma add_bytes: "add f (uint (a::byte)) (uint (b::byte)) = Inr (uint (a XOR b))"
  using uint_byte_range [of a] uint_byte_range [of b]
  by (simp add: add_def validateByte_def uint_xor)

lemma beval_simps:
  "beval m w [] = 0" "beval m w (c # cs) = c XOR bmul m (beval m w cs) w"
  by (simp_all add: beval_def)

lemma bhorner_snoc: "bhorner m w 0 (cs @ [c]) = bhorner m w c cs"
  by (induction cs) (simp_all add: bmul_0_left)

lemma evaluate_loop_beval:
  assumes wf: "wf_field m g f" and "n < length cs"
  shows "evaluate_loop f cs (uint w) n (uint (beval m w (drop n cs))) = Inr (uint (beval m w cs))"
  using assms(2)
proof (induction n)
  case 0
  show ?case by simp
next
  case (Suc n)
  then have n: "n < length cs" by simp
  have d: "drop n cs = cs ! n # drop (Suc n) cs"
    using n by (simp add: Cons_nth_drop_Suc)
  have "evaluate_loop f cs (uint w) (Suc n) (uint (beval m w (drop (Suc n) cs)))
      = evaluate_loop f cs (uint w) n (uint (bmul m (beval m w (drop (Suc n) cs)) w XOR cs ! n))"
    using n by (simp add: wf_mul [OF wf] load_nth add_bytes)
  also have "bmul m (beval m w (drop (Suc n) cs)) w XOR cs ! n = beval m w (drop n cs)"
    by (simp add: d beval_simps xor.commute)
  finally show ?case using Suc.IH [OF n] by simp
qed

lemma evaluate_beval:
  assumes wf: "wf_field m g f" and cs: "cs \<noteq> []" and w: "w \<noteq> 0"
  shows "evaluate f cs (uint w) = Inr (uint (beval m w cs))"
proof -
  let ?d = "length cs - 1"
  have d: "?d < length cs" using cs by simp
  then have "drop ?d cs = [cs ! ?d]"
    by (metis Cons_nth_drop_Suc Suc_diff_1 drop_all length_greater_0_conv cs order_refl)
  then have b: "beval m w (drop ?d cs) = cs ! ?d" by (simp add: beval_simps bmul_0_left)
  have "evaluate f cs (uint w) = evaluate_loop f cs (uint w) ?d (uint (cs ! ?d))"
    using cs w d uint_byte_range [of w]
    by (simp add: evaluate_def validateByte_def uint_byte_eq_0 load_nth Let_def)
  also have "\<dots> = Inr (uint (beval m w cs))"
    using evaluate_loop_beval [OF wf d, of w] unfolding b .
  finally show ?thesis .
qed

lemma horner_fold_snoc:
  "horner_fold f x (cs @ [c]) acc =
     (case horner_fold f x cs acc of Inl e \<Rightarrow> Inl e | Inr a \<Rightarrow>
     (case mul f a x of Inl e \<Rightarrow> Inl e | Inr t \<Rightarrow> add f t c))"
  by (induction cs arbitrary: acc) (auto split: sum.splits)

lemma horner_fold_bhorner:
  assumes wf: "wf_field m g f"
  shows "horner_fold f (uint w) (map uint (rev cs)) (uint r) = Inr (uint (bhorner m w r cs))"
  by (induction cs) (simp_all add: horner_fold_snoc wf_mul [OF wf] add_bytes xor.commute)

lemma horner_beval:
  assumes wf: "wf_field m g f" and cs: "cs \<noteq> []"
  shows "horner f (map uint cs) (uint w) = Inr (uint (beval m w cs))"
proof -
  from cs obtain xs c where xc: "cs = xs @ [c]" by (metis rev_exhaust)
  have "horner f (map uint cs) (uint w) = horner_fold f (uint w) (map uint (rev xs)) (uint c)"
    by (simp add: horner_def xc rev_map)
  then show ?thesis
    by (simp add: horner_fold_bhorner [OF wf] xc beval_def bhorner_snoc)
qed

lemma field_power_bpow:
  assumes wf: "wf_field m g f"
  shows "field_power f (uint w) n = Inr (uint (bpow m w n))"
proof (induction n)
  case 0
  show ?case by simp
next
  case (Suc n)
  then show ?case by (simp add: wf_mul [OF wf])
qed

lemma field_sum_beval:
  assumes wf: "wf_field m g f"
  shows "field_sum f (uint w) i (map uint cs) = Inr (uint (bmul m (beval m w cs) (bpow m w i)))"
proof (induction cs arbitrary: i)
  case Nil
  show ?case by (simp add: beval_simps bmul_0_left)
next
  case (Cons c cs)
  have "bmul m (bmul m (beval m w cs) w) (bpow m w i) = bmul m (beval m w cs) (bpow m w (Suc i))"
    by (simp add: bmul_assoc bmul_commute [of m w])
  then have "bmul m c (bpow m w i) XOR bmul m (beval m w cs) (bpow m w (Suc i))
      = bmul m (beval m w (c # cs)) (bpow m w i)"
    by (simp only: beval_simps bmul_xor_left)
  then show ?case
    by (simp add: field_power_bpow [OF wf] wf_mul [OF wf] Cons.IH add_bytes del: bpow.simps)
qed



subsection \<open>Division and synthetic division\<close>

lemma bmul_left_commute: "bmul m a (bmul m b c) = bmul m b (bmul m a c)"
  by (metis bmul_assoc bmul_commute)

lemmas bmul_ac = bmul_assoc bmul_commute bmul_left_commute

lemma bmul_binv:
  assumes wf: "wf_field m g f" and b: "b \<noteq> 0"
  shows "bmul m b (binv m b) = 1"
proof -
  from wf have gen: "generates m g" by (simp add: wf_field_def)
  from bpow_log [OF gen b] obtain j where j: "bpow m g j = b" by blast
  have "bmul m b (binv m b) = bpow m b (Suc 254)"
    by (simp only: binv_def bpow.simps bmul_commute)
  also have "\<dots> = bpow m g (j * Suc 254)"
    unfolding j [symmetric] by (simp only: bpow_bpow)
  also have "\<dots> = bpow m g (j * 255)" by simp
  also have "\<dots> = bpow m g ((j * 255) mod 255)"
    by (simp only: bpow_mod [OF gen])
  also have "\<dots> = 1" by simp
  finally show ?thesis .
qed

lemma bdiv_mul:
  assumes "wf_field m g f" "b \<noteq> 0"
  shows "bmul m (bdiv m a b) b = a"
proof -
  have "bmul m (bdiv m a b) b = bmul m a (bmul m b (binv m b))"
    by (simp add: bdiv_def bmul_ac)
  then show ?thesis by (simp add: bmul_binv [OF assms] bmul_1_right)
qed

lemma wf_div:
  assumes wf: "wf_field m g f" and b: "b \<noteq> 0"
  shows "div_gf f (uint a) (uint b) = Inr (uint (bdiv m a b))"
proof -
  from wf_div_ex [OF wf b, of a] obtain c where
    c: "div_gf f (uint a) (uint b) = Inr (uint c)" "bmul m c b = a" by blast
  have "bmul m c b = bmul m (bdiv m a b) b"
    by (simp add: c(2) bdiv_mul [OF wf b])
  with wf b have "c = bdiv m a b" by (rule bmul_cancel)
  with c(1) show ?thesis by simp
qed

lemma sdiv_length: "length (sdiv m a cs) = length cs - 1"
  by (induction m a cs rule: sdiv.induct) simp_all

lemma sdiv_eval:
  "beval m t cs = beval m a cs XOR bmul m (t XOR a) (beval m t (sdiv m a cs))"
proof (induction m a cs rule: sdiv.induct)
  case (1 m a)
  show ?case by (simp add: beval_simps bmul_0_right)
next
  case (2 m a c)
  show ?case by (simp add: beval_simps bmul_0_right bmul_0_left)
next
  case (3 m a c c' cs)
  let ?R = "\<lambda>u. beval m u (c' # cs)" and ?S = "beval m t (sdiv m a (c' # cs))"
  have R: "?R t = ?R a XOR bmul m (t XOR a) ?S" by (rule 3)
  have "beval m t (c # c' # cs) = c XOR bmul m (?R a XOR bmul m (t XOR a) ?S) t"
    using R by (simp add: beval_simps)
  also have "\<dots> = (c XOR bmul m (?R a) a) XOR bmul m (t XOR a) (?R a XOR bmul m ?S t)"
    by (simp add: bmul_xor_left bmul_xor_right bmul_ac xor.assoc xor.left_commute)
  also have "\<dots> = beval m a (c # c' # cs) XOR bmul m (t XOR a) (beval m t (sdiv m a (c # c' # cs)))"
    by (simp add: beval_simps)
  finally show ?case .
qed



subsection \<open>Lagrange interpolation over the field\<close>

text \<open>A node in front of the context multiplies every summand by its own factor.\<close>

lemma lsum_context:
  "lsum m x (c # pre) (map (\<lambda>b. (b, F b)) ns)
     = lsum m x pre (map (\<lambda>b. (b, bmul m (F b) (bdiv m (x XOR c) (b XOR c)))) ns)"
proof (induction ns arbitrary: pre)
  case Nil
  show ?case by simp
next
  case (Cons b ns)
  have "lsum m x (c # pre @ [b]) (map (\<lambda>b. (b, F b)) ns)
      = lsum m x (pre @ [b]) (map (\<lambda>b. (b, bmul m (F b) (bdiv m (x XOR c) (b XOR c)))) ns)"
    using Cons.IH [of "pre @ [b]"] by simp
  then show ?case by (simp add: comp_def bmul_ac)
qed

lemma lsum_cong:
  assumes "\<And>b. b \<in> set ns \<Longrightarrow> F b = G b"
  shows "lsum m x pre (map (\<lambda>b. (b, F b)) ns) = lsum m x pre (map (\<lambda>b. (b, G b)) ns)"
  using assms by (induction ns arbitrary: pre) (simp_all add: comp_def)

lemma lsum_linear:
  "lsum m x pre (map (\<lambda>b. (b, bmul m u (F b) XOR bmul m v (G b))) ns)
     = bmul m u (lsum m x pre (map (\<lambda>b. (b, F b)) ns))
       XOR bmul m v (lsum m x pre (map (\<lambda>b. (b, G b)) ns))"
proof (induction ns arbitrary: pre)
  case Nil
  show ?case by (simp add: bmul_0_right)
next
  case (Cons b ns)
  show ?case
    by (simp add: Cons.IH comp_def bmul_xor_left bmul_xor_right bmul_ac xor.assoc xor.left_commute)
qed

text \<open>The interpolant of the nodes \<open>a # ns\<close>, with the node \<open>a\<close> split off.\<close>

lemma lsum_Cons:
  "lsum m x [] (map (\<lambda>b. (b, F b)) (a # ns))
     = bmul m (F a) (lbasis m x a ns)
       XOR lsum m x [] (map (\<lambda>b. (b, bmul m (F b) (bdiv m (x XOR a) (b XOR a)))) ns)"
  using lsum_context [of m x a "[]" F ns] by (simp add: comp_def)

lemma binv_sum:
  assumes wf: "wf_field m g f" and "u \<noteq> 0" "v \<noteq> 0"
  shows "binv m u XOR binv m v = bmul m (u XOR v) (bmul m (binv m u) (binv m v))"
proof -
  have "bmul m (u XOR v) (bmul m (binv m u) (binv m v))
      = bmul m (bmul m u (binv m u)) (binv m v) XOR bmul m (bmul m v (binv m v)) (binv m u)"
    by (simp add: bmul_xor_left bmul_ac)
  then show ?thesis
    by (simp add: bmul_binv [OF wf] assms bmul_1_left xor.commute)
qed

lemma neville_aux:
  "bmul m (bmul m B iab) (bmul m A ica) XOR bmul m (bmul m A iab) (bmul m B icb)
     = bmul m (bmul m A B) (bmul m iab (ica XOR icb))"
  by (simp add: bmul_xor_right bmul_ac)

text \<open>The identity behind Neville's scheme, for three distinct nodes.\<close>

lemma neville_terms:
  assumes wf: "wf_field m g f" and "a \<noteq> b" "c \<noteq> a" "c \<noteq> b"
  shows "bmul m (bdiv m (x XOR b) (a XOR b)) (bdiv m (x XOR a) (c XOR a))
       XOR bmul m (bdiv m (x XOR a) (b XOR a)) (bdiv m (x XOR b) (c XOR b))
       = bmul m (bdiv m (x XOR a) (c XOR a)) (bdiv m (x XOR b) (c XOR b))"
proof -
  let ?A = "x XOR a" and ?B = "x XOR b"
  let ?iab = "binv m (a XOR b)" and ?ica = "binv m (c XOR a)" and ?icb = "binv m (c XOR b)"
  have nz: "a XOR b \<noteq> 0" "c XOR a \<noteq> 0" "c XOR b \<noteq> 0"
    using assms(2-) by (simp_all add: byte_xor_eq_0)
  have s: "(c XOR a) XOR (c XOR b) = a XOR b"
    by (simp add: xor.assoc xor.left_commute)
  have "?ica XOR ?icb = bmul m (a XOR b) (bmul m ?ica ?icb)"
    using binv_sum [OF wf nz(2) nz(3)] by (simp only: s)
  then have "bmul m ?iab (?ica XOR ?icb) = bmul m (bmul m (a XOR b) ?iab) (bmul m ?ica ?icb)"
    by (simp add: bmul_ac)
  then have k: "bmul m ?iab (?ica XOR ?icb) = bmul m ?ica ?icb"
    by (simp add: bmul_binv [OF wf nz(1)] bmul_1_left)
  have "bmul m (bdiv m ?B (a XOR b)) (bdiv m ?A (c XOR a))
       XOR bmul m (bdiv m ?A (b XOR a)) (bdiv m ?B (c XOR b))
      = bmul m (bmul m ?A ?B) (bmul m ?iab (?ica XOR ?icb))"
    by (simp only: bdiv_def xor.commute [of b a] neville_aux)
  also have "\<dots> = bmul m (bdiv m ?A (c XOR a)) (bdiv m ?B (c XOR b))"
    by (simp only: k bdiv_def) (simp only: bmul_ac)
  finally show ?thesis .
qed

lemma xor_move: "(u::byte) XOR v = w \<Longrightarrow> u = w XOR v"
  by (auto simp: xor.assoc)

text \<open>The Lagrange basis values sum to one.\<close>

lemma lsum_one:
  assumes wf: "wf_field m g f"
  shows "distinct ns \<Longrightarrow> ns \<noteq> [] \<Longrightarrow> lsum m x [] (map (\<lambda>b. (b, 1)) ns) = 1"
proof (induction "length ns" arbitrary: ns)
  case 0
  then show ?case by simp
next
  case (Suc n)
  then obtain a ns' where ns: "ns = a # ns'" by (cases ns) auto
  show ?case
  proof (cases ns')
    case Nil
    then show ?thesis by (simp add: ns bmul_1_left)
  next
    case (Cons b ns'')
    let ?T = "\<lambda>u c. bdiv m (x XOR u) (c XOR u)"
    let ?L = "\<lambda>F. lsum m x [] (map (\<lambda>c. (c, F c)) ns'')"
    from Suc.prems ns Cons have d: "a \<noteq> b" "a \<notin> set ns''" "b \<notin> set ns''" "distinct ns''"
      by auto
    have "lsum m x [] (map (\<lambda>b. (b, 1)) (a # ns'')) = 1"
      using Suc.hyps(2) d ns Cons by (intro Suc.hyps(1)) simp_all
    then have ia: "lbasis m x a ns'' XOR ?L (?T a) = 1"
      by (simp only: lsum_Cons [of m x "\<lambda>_. 1" a ns''] bmul_1_left)
    have "lsum m x [] (map (\<lambda>b. (b, 1)) (b # ns'')) = 1"
      using Suc.hyps(2) d ns Cons by (intro Suc.hyps(1)) simp_all
    then have ib: "lbasis m x b ns'' XOR ?L (?T b) = 1"
      by (simp only: lsum_Cons [of m x "\<lambda>_. 1" b ns''] bmul_1_left)
    have ia': "lbasis m x a ns'' = 1 XOR ?L (?T a)"
      using ia by (rule xor_move)
    have ib': "lbasis m x b ns'' = 1 XOR ?L (?T b)"
      using ib by (rule xor_move)
    have nz: "a XOR b \<noteq> 0" using d(1) by (simp add: byte_xor_eq_0)
    have tt: "?T b a XOR ?T a b = 1"
    proof -
      have "?T b a XOR ?T a b = bmul m ((x XOR b) XOR (x XOR a)) (binv m (a XOR b))"
        by (simp add: bdiv_def bmul_xor_left xor.commute [of b a])
      also have "(x XOR b) XOR (x XOR a) = a XOR b"
        by (simp add: xor.assoc xor.left_commute xor.commute)
      finally show ?thesis by (simp add: bmul_binv [OF wf nz])
    qed
    have nev: "?L (\<lambda>c. bmul m (?T b a) (?T a c) XOR bmul m (?T a b) (?T b c))
        = ?L (\<lambda>c. bmul m (?T a c) (?T b c))"
    proof (rule lsum_cong)
      fix c assume "c \<in> set ns''"
      with d have "c \<noteq> a" "c \<noteq> b" by auto
      with wf d(1) show "bmul m (?T b a) (?T a c) XOR bmul m (?T a b) (?T b c)
          = bmul m (?T a c) (?T b c)"
        by (rule neville_terms)
    qed
    have "lsum m x [] (map (\<lambda>b. (b, 1)) ns)
        = bmul m (?T b a) (lbasis m x a ns'') XOR bmul m (?T a b) (lbasis m x b ns'')
          XOR ?L (\<lambda>c. bmul m (?T a c) (?T b c))"
      by (simp only: ns Cons lsum_Cons lbasis.simps bmul_1_left xor.assoc)
    also have "\<dots> = bmul m (?T b a) (1 XOR ?L (?T a)) XOR bmul m (?T a b) (1 XOR ?L (?T b))
          XOR ?L (\<lambda>c. bmul m (?T b a) (?T a c) XOR bmul m (?T a b) (?T b c))"
      by (simp only: ia' ib' nev)
    also have "\<dots> = ?T b a XOR ?T a b"
      by (simp add: lsum_linear bmul_xor_right bmul_1_right xor.assoc xor.left_commute)
    finally show ?thesis by (simp add: tt)
  qed
qed

text \<open>Interpolation through as many distinct nodes as coefficients returns the polynomial.\<close>

lemma lsum_beval:
  assumes wf: "wf_field m g f"
  shows "distinct ns \<Longrightarrow> length cs \<le> length ns
     \<Longrightarrow> lsum m x [] (map (\<lambda>b. (b, beval m b cs)) ns) = beval m x cs"
proof (induction ns arbitrary: cs)
  case Nil
  then show ?case by (simp add: beval_simps)
next
  case (Cons a ns)
  let ?Q = "sdiv m a cs"
  let ?T = "\<lambda>c. bdiv m (x XOR a) (c XOR a)"
  let ?L = "\<lambda>F. lsum m x [] (map (\<lambda>c. (c, F c)) ns)"
  from Cons.prems have d: "a \<notin> set ns" "distinct ns" by auto
  have lq: "length ?Q \<le> length ns" using Cons.prems(2) by (simp add: sdiv_length)
  have ih: "?L (\<lambda>c. beval m c ?Q) = beval m x ?Q"
    using d(2) lq by (rule Cons.IH)
  have "lsum m x [] (map (\<lambda>b. (b, 1)) (a # ns)) = 1"
    using wf Cons.prems(1) by (rule lsum_one) simp
  then have one: "lbasis m x a ns XOR ?L ?T = 1"
    by (simp only: lsum_Cons [of m x "\<lambda>_. 1" a ns] bmul_1_left)
  have tm: "bmul m (beval m c cs) (?T c)
      = bmul m (beval m a cs) (?T c) XOR bmul m (x XOR a) (beval m c ?Q)" if "c \<in> set ns" for c
  proof -
    from that d have nz: "c XOR a \<noteq> 0" by (auto simp: byte_xor_eq_0)
    have "bmul m (bmul m (c XOR a) (beval m c ?Q)) (?T c)
        = bmul m (bmul m (c XOR a) (binv m (c XOR a))) (bmul m (x XOR a) (beval m c ?Q))"
      by (simp add: bdiv_def bmul_ac)
    then have "bmul m (bmul m (c XOR a) (beval m c ?Q)) (?T c) = bmul m (x XOR a) (beval m c ?Q)"
      by (simp add: bmul_binv [OF wf nz] bmul_1_left)
    then show ?thesis
      by (subst sdiv_eval [of m c cs a]) (simp add: bmul_xor_left)
  qed
  have "lsum m x [] (map (\<lambda>b. (b, beval m b cs)) (a # ns))
      = bmul m (beval m a cs) (lbasis m x a ns) XOR ?L (\<lambda>c. bmul m (beval m c cs) (?T c))"
    by (rule lsum_Cons)
  also have "?L (\<lambda>c. bmul m (beval m c cs) (?T c))
      = ?L (\<lambda>c. bmul m (beval m a cs) (?T c) XOR bmul m (x XOR a) (beval m c ?Q))"
    by (rule lsum_cong) (rule tm)
  also have "\<dots> = bmul m (beval m a cs) (?L ?T) XOR bmul m (x XOR a) (beval m x ?Q)"
    by (simp only: lsum_linear ih)
  finally have "lsum m x [] (map (\<lambda>b. (b, beval m b cs)) (a # ns))
      = bmul m (beval m a cs) (lbasis m x a ns XOR ?L ?T) XOR bmul m (x XOR a) (beval m x ?Q)"
    by (simp add: bmul_xor_right xor.assoc)
  then show ?case
    by (simp only: one bmul_1_right sdiv_eval [of m x cs a, symmetric])
qed


subsection \<open>interpolate computes the Lagrange interpolant\<close>

lemma skip_at_past: "i < j \<Longrightarrow> skip_at i j zs = zs"
  by (induction zs arbitrary: j) simp_all

lemma skip_at_take_drop:
  "j \<le> i \<Longrightarrow> skip_at i j zs = take (i - j) zs @ drop (Suc (i - j)) zs"
proof (induction zs arbitrary: j)
  case Nil
  show ?case by simp
next
  case (Cons z zs)
  show ?case
  proof (cases "i = j")
    case True
    then show ?thesis by (simp add: skip_at_past)
  next
    case False
    with Cons.prems have "Suc j \<le> i" by simp
    then have "skip_at i (Suc j) zs = take (i - Suc j) zs @ drop (Suc (i - Suc j)) zs"
      by (rule Cons.IH)
    moreover have "i - j = Suc (i - Suc j)" using \<open>Suc j \<le> i\<close> by simp
    ultimately show ?thesis using False by simp
  qed
qed

lemma px_node: "byte_sample s \<Longrightarrow> px s = uint (node s)"
  by (simp add: byte_sample_def node_def int_byte)

lemma py_bytes: "byte_sample s \<Longrightarrow> py s = uint (snd (sample_bytes s))"
  by (simp add: byte_sample_def sample_bytes_def int_byte)

lemma fst_sample_bytes: "fst (sample_bytes s) = node s"
  by (simp add: sample_bytes_def node_def)

lemma basis_loop_lbasis:
  assumes wf: "wf_field m g f"
    and bs: "\<forall>s\<in>set samples. byte_sample s"
    and dist: "distinct (map px samples)"
    and i: "i < length samples"
  shows "j \<le> length samples \<Longrightarrow>
    basis_loop f samples (uint x) i j (uint b)
      = Inr (uint (bmul m b (lbasis m x (node (samples ! i)) (skip_at i j (map node (drop j samples))))))"
proof (induction "length samples - j" arbitrary: j b)
  case 0
  then have "j = length samples" by simp
  then show ?case by (subst basis_loop.simps) (simp add: bmul_1_right)
next
  case (Suc n)
  then have j: "j < length samples" by simp
  let ?si = "samples ! i" and ?sj = "samples ! j"
  have d: "drop j samples = ?sj # drop (Suc j) samples"
    using j by (simp add: Cons_nth_drop_Suc)
  have ih: "basis_loop f samples (uint x) i (Suc j) (uint b')
      = Inr (uint (bmul m b' (lbasis m x (node ?si) (skip_at i (Suc j) (map node (drop (Suc j) samples))))))"
    for b'
    using Suc.hyps(2) j by (intro Suc.hyps(1)) simp_all
  show ?case
  proof (cases "i = j")
    case True
    have step: "basis_loop f samples (uint x) i j (uint b)
        = basis_loop f samples (uint x) i (Suc j) (uint b)"
      using j True by (subst basis_loop.simps) simp
    have sk: "skip_at i j (map node (drop j samples))
        = skip_at i (Suc j) (map node (drop (Suc j) samples))"
      using True by (simp add: d)
    show ?thesis unfolding step sk by (rule ih)
  next
    case False
    have pi: "px ?si = uint (node ?si)" and pj: "px ?sj = uint (node ?sj)"
      using bs i j by (simp_all add: px_node)
    have "px ?si \<noteq> px ?sj"
      using dist i j False by (simp add: distinct_conv_nth)
    then have "node ?si \<noteq> node ?sj" using pi pj by auto
    then have nz: "node ?si XOR node ?sj \<noteq> 0" by (simp add: byte_xor_eq_0)
    let ?t = "bdiv m (x XOR node ?sj) (node ?si XOR node ?sj)"
    have "basis_loop f samples (uint x) i j (uint b)
        = basis_loop f samples (uint x) i (Suc j) (uint (bmul m b ?t))"
      using j False
      by (subst basis_loop.simps)
        (simp add: Let_def pi pj add_bytes wf_div [OF wf nz] wf_mul [OF wf])
    then show ?thesis using False by (simp add: ih d bmul_assoc)
  qed
qed

lemma interpolate_loop_lsum:
  assumes wf: "wf_field m g f"
    and bs: "\<forall>s\<in>set samples. byte_sample s"
    and dist: "distinct (map px samples)"
  shows "i \<le> length samples \<Longrightarrow>
    interpolate_loop f samples (uint x) i (uint r)
      = Inr (uint (r XOR lsum m x (map node (take i samples)) (map sample_bytes (drop i samples))))"
proof (induction "length samples - i" arbitrary: i r)
  case 0
  then have "i = length samples" by simp
  then show ?case by (subst interpolate_loop.simps) simp
next
  case (Suc n)
  then have i: "i < length samples" by simp
  let ?si = "samples ! i"
  let ?pre = "map node (take i samples)" and ?post = "map sample_bytes (drop (Suc i) samples)"
  have d: "drop i samples = ?si # drop (Suc i) samples"
    using i by (simp add: Cons_nth_drop_Suc)
  have t: "take (Suc i) samples = take i samples @ [?si]"
    using i by (simp add: take_Suc_conv_app_nth)
  have "skip_at i 0 (map node (drop 0 samples)) = ?pre @ map fst ?post"
    by (simp add: skip_at_take_drop take_map drop_map comp_def fst_sample_bytes)
  then have b: "basis_loop f samples (uint x) i 0 (uint 1)
      = Inr (uint (lbasis m x (node ?si) (?pre @ map fst ?post)))"
    using basis_loop_lbasis [OF wf bs dist i, of 0 x 1] by (simp add: bmul_1_left)
  have y: "py ?si = uint (snd (sample_bytes ?si))"
    using bs i by (simp add: py_bytes)
  let ?summand = "bmul m (snd (sample_bytes ?si)) (lbasis m x (node ?si) (?pre @ map fst ?post))"
  have "interpolate_loop f samples (uint x) i (uint r)
      = interpolate_loop f samples (uint x) (Suc i) (uint (r XOR ?summand))"
    using i b by (subst interpolate_loop.simps) (simp add: y wf_mul [OF wf] add_bytes)
  also have "\<dots> = Inr (uint ((r XOR ?summand)
       XOR lsum m x (map node (take (Suc i) samples)) ?post))"
    using Suc.hyps(2) i by (intro Suc.hyps(1)) simp_all
  also have "(r XOR ?summand) XOR lsum m x (map node (take (Suc i) samples)) ?post
      = r XOR lsum m x ?pre (map sample_bytes (drop i samples))"
  proof -
    have sb: "sample_bytes ?si = (node ?si, snd (sample_bytes ?si))"
      by (simp add: sample_bytes_def node_def)
    have "lsum m x ?pre (map sample_bytes (drop i samples))
        = lsum m x ?pre ((node ?si, snd (sample_bytes ?si)) # ?post)"
      by (simp only: d list.map sb [symmetric])
    also have "\<dots> = ?summand XOR lsum m x (?pre @ [node ?si]) ?post"
      by (simp only: lsum.simps)
    finally show ?thesis by (simp add: t xor.assoc)
  qed
  finally show ?case .
qed

lemma interpolate_lsum:
  assumes wf: "wf_field m g f"
    and bs: "\<forall>s\<in>set samples. byte_sample s"
    and dist: "distinct (map px samples)"
    and ne: "samples \<noteq> []"
  shows "interpolate f samples (uint x) = Inr (uint (lsum m x [] (map sample_bytes samples)))"
proof -
  have "interpolate_loop f samples (uint x) 0 (uint (0::byte))
      = Inr (uint (0 XOR lsum m x (map node (take 0 samples)) (map sample_bytes (drop 0 samples))))"
    using wf bs dist by (rule interpolate_loop_lsum) simp
  then show ?thesis using ne uint_byte_range [of x]
    by (simp add: interpolate_def validateByte_def)
qed


lemma samples_of_polynomial:
  assumes wf: "wf_field m g f" and cs: "cs \<noteq> []"
    and ev: "\<forall>s\<in>set samples. 1 \<le> px s \<and> px s \<le> 255 \<and> evaluate f cs (px s) = Inr (py s)"
  shows "\<forall>s\<in>set samples. byte_sample s"
    and "map sample_bytes samples = map (\<lambda>b. (b, beval m b cs)) (map node samples)"
    and "map px samples = map uint (map node samples)"
proof -
  have s: "byte_sample s \<and> sample_bytes s = (node s, beval m (node s) cs) \<and> px s = uint (node s)"
    if "s \<in> set samples" for s
  proof -
    from that ev have r: "1 \<le> px s" "px s \<le> 255" and e: "evaluate f cs (px s) = Inr (py s)"
      by auto
    from r have p: "px s = uint (node s)" by (simp add: node_def int_byte)
    with r have "node s \<noteq> 0" by auto
    from evaluate_beval [OF wf cs this] e have y: "py s = uint (beval m (node s) cs)"
      by (simp add: p [symmetric])
    then have "byte_sample s"
      using r uint_byte_range [of "beval m (node s) cs"] by (simp add: byte_sample_def)
    moreover have "sample_bytes s = (node s, beval m (node s) cs)"
      by (simp add: sample_bytes_def node_def y)
    ultimately show ?thesis using p by simp
  qed
  from s show "\<forall>s\<in>set samples. byte_sample s" by simp
  from s show "map sample_bytes samples = map (\<lambda>b. (b, beval m b cs)) (map node samples)"
    by simp
  from s show "map px samples = map uint (map node samples)" by simp
qed

subsection \<open>The AES field is constructed\<close>

text \<open>
  The powers of 3 for the reduction byte 0x1B, by square and multiply; each product is
  one run of \<open>mulByte\<close>.
\<close>

lemma aes_bmul:
  assumes "mulByte a b 0x11B = Inr c" "0 \<le> a" "a \<le> 255" "0 \<le> b" "b \<le> 255"
  shows "bmul 27 (word_of_int a) (word_of_int b) = word_of_int c"
proof -
  have w: "(27 :: byte) = word_of_int 0x11B" by simp
  have "mulByte a b 0x11B = Inr (uint (bmul (word_of_int 0x11B) (word_of_int a) (word_of_int b)))"
    using assms(2-) by (intro mulByte_bmul) simp_all
  with assms(1) have "c = uint (bmul (word_of_int 0x11B) (word_of_int a :: byte) (word_of_int b))"
    by simp
  then show ?thesis unfolding w by simp
qed

lemma aes_powers:
  "bpow 27 3 15 = 53" "bpow 27 3 51 = 12" "bpow 27 3 85 = 189" "bpow 27 3 255 = 1"
proof -
  have p1: "bpow 27 3 1 = 3" by (simp add: bmul_1_left)
  have "mulByte 3 3 0x11B = Inr 5" by code_simp
  from aes_bmul [OF this] have m: "bmul 27 3 3 = (5::byte)" by simp
  have s: "(2::nat) = 1 + 1" by simp
  have p2: "bpow 27 3 2 = 5" by (simp only: s bpow_add p1 m)
  have "mulByte 5 3 0x11B = Inr 15" by code_simp
  from aes_bmul [OF this] have m: "bmul 27 5 3 = (15::byte)" by simp
  have s: "(3::nat) = 2 + 1" by simp
  have p3: "bpow 27 3 3 = 15" by (simp only: s bpow_add p2 p1 m)
  have "mulByte 15 15 0x11B = Inr 85" by code_simp
  from aes_bmul [OF this] have m: "bmul 27 15 15 = (85::byte)" by simp
  have s: "(6::nat) = 3 + 3" by simp
  have p6: "bpow 27 3 6 = 85" by (simp only: s bpow_add p3 m)
  have "mulByte 85 3 0x11B = Inr 255" by code_simp
  from aes_bmul [OF this] have m: "bmul 27 85 3 = (255::byte)" by simp
  have s: "(7::nat) = 6 + 1" by simp
  have p7: "bpow 27 3 7 = 255" by (simp only: s bpow_add p6 p1 m)
  have "mulByte 255 15 0x11B = Inr 114" by code_simp
  from aes_bmul [OF this] have m: "bmul 27 255 15 = (114::byte)" by simp
  have s: "(10::nat) = 7 + 3" by simp
  have p10: "bpow 27 3 10 = 114" by (simp only: s bpow_add p7 p3 m)
  have "mulByte 255 255 0x11B = Inr 19" by code_simp
  from aes_bmul [OF this] have m: "bmul 27 255 255 = (19::byte)" by simp
  have s: "(14::nat) = 7 + 7" by simp
  have p14: "bpow 27 3 14 = 19" by (simp only: s bpow_add p7 m)
  have "mulByte 19 3 0x11B = Inr 53" by code_simp
  from aes_bmul [OF this] have m: "bmul 27 19 3 = (53::byte)" by simp
  have s: "(15::nat) = 14 + 1" by simp
  have p15: "bpow 27 3 15 = 53" by (simp only: s bpow_add p14 p1 m)
  have "mulByte 53 53 0x11B = Inr 102" by code_simp
  from aes_bmul [OF this] have m: "bmul 27 53 53 = (102::byte)" by simp
  have s: "(30::nat) = 15 + 15" by simp
  have p30: "bpow 27 3 30 = 102" by (simp only: s bpow_add p15 m)
  have "mulByte 102 53 0x11B = Inr 171" by code_simp
  from aes_bmul [OF this] have m: "bmul 27 102 53 = (171::byte)" by simp
  have s: "(45::nat) = 30 + 15" by simp
  have p45: "bpow 27 3 45 = 171" by (simp only: s bpow_add p30 p15 m)
  have "mulByte 171 85 0x11B = Inr 12" by code_simp
  from aes_bmul [OF this] have m: "bmul 27 171 85 = (12::byte)" by simp
  have s: "(51::nat) = 45 + 6" by simp
  have p51: "bpow 27 3 51 = 12" by (simp only: s bpow_add p45 p6 m)
  have "mulByte 102 102 0x11B = Inr 211" by code_simp
  from aes_bmul [OF this] have m: "bmul 27 102 102 = (211::byte)" by simp
  have s: "(60::nat) = 30 + 30" by simp
  have p60: "bpow 27 3 60 = 211" by (simp only: s bpow_add p30 m)
  have "mulByte 211 53 0x11B = Inr 8" by code_simp
  from aes_bmul [OF this] have m: "bmul 27 211 53 = (8::byte)" by simp
  have s: "(75::nat) = 60 + 15" by simp
  have p75: "bpow 27 3 75 = 8" by (simp only: s bpow_add p60 p15 m)
  have "mulByte 8 114 0x11B = Inr 189" by code_simp
  from aes_bmul [OF this] have m: "bmul 27 8 114 = (189::byte)" by simp
  have s: "(85::nat) = 75 + 10" by simp
  have p85: "bpow 27 3 85 = 189" by (simp only: s bpow_add p75 p10 m)
  have "mulByte 189 189 0x11B = Inr 188" by code_simp
  from aes_bmul [OF this] have m: "bmul 27 189 189 = (188::byte)" by simp
  have s: "(170::nat) = 85 + 85" by simp
  have p170: "bpow 27 3 170 = 188" by (simp only: s bpow_add p85 m)
  have "mulByte 188 189 0x11B = Inr 1" by code_simp
  from aes_bmul [OF this] have m: "bmul 27 188 189 = (1::byte)" by simp
  have s: "(255::nat) = 170 + 85" by simp
  have p255: "bpow 27 3 255 = 1" by (simp only: s bpow_add p170 p85 m)
  show "bpow 27 3 15 = 53" "bpow 27 3 51 = 12" "bpow 27 3 85 = 189" "bpow 27 3 255 = 1"
    by (fact p15 p51 p85 p255)+
qed

lemma generates_27_3: "generates 27 3"
  by (rule generates_by_order) (simp_all add: aes_powers)

lemma valid_aes: "valid_params 0x11B 0x03"
  by (simp add: valid_params_def)

lemma generates_aes: "generates (word_of_int 0x11B) (word_of_int 0x03)"
proof -
  have "(word_of_int 0x11B :: byte) = 27" "(word_of_int 0x03 :: byte) = 3" by simp_all
  then show ?thesis using generates_27_3 by (simp only:)
qed

lemma isGenerator_aes: "isGenerator 0x11B 0x03 = Inr True"
  using isGenerator_generates [OF valid_aes] generates_aes by (simp only: simp_thms)

lemma aes_constructed: "GF256 0x11B 0x03 = Inr AES_field"
  using GF256_result [OF valid_aes generates_aes] by (auto simp: AES_field_def)

lemma byte_cases:
  assumes "0 \<le> a" "a \<le> 255"
  obtains w :: byte where "a = uint w"
  using int_byte [OF assms] by metis


subsection \<open>Shared facts for the claims\<close>

lemma gen_power_inj:
  assumes "valid_params p c"
  shows "distinct (map (gen_power p c) [0..<255]) = generates (word_of_int p) (word_of_int c)"
proof -
  have "map (gen_power p c) [0..<255]
      = map (\<lambda>w. Inr (uint w)) (map (bpow (word_of_int p) (word_of_int c)) [0..<255])"
    by (simp add: gen_power_bpow [OF assms])
  moreover have "inj (\<lambda>w::byte. (Inr (uint w) :: error + int))"
    by (rule injI) (simp add: word_uint_eq_iff [symmetric])
  ultimately show ?thesis
    by (simp only: generates_def distinct_map) (auto intro: inj_on_subset)
qed

lemma not_generates_0: "\<not> generates m 0"
proof
  assume "generates m 0"
  then have "inj_on (bpow m 0) {..<255}" by (simp add: generates_inj)
  moreover have "bpow m 0 (Suc 0) = bpow m 0 (Suc (Suc 0))" by (simp add: bmul_0_right)
  ultimately have "Suc 0 = Suc (Suc 0)" by (rule inj_onD) simp_all
  then show False by simp
qed

lemma not_generates_1: "\<not> generates m 1"
proof
  assume "generates m 1"
  then have "inj_on (bpow m 1) {..<255}" by (simp add: generates_inj)
  moreover have "bpow m 1 0 = bpow m 1 (Suc 0)" by (simp add: bmul_1_right)
  ultimately have "0 = Suc 0" by (rule inj_onD) simp_all
  then show False by simp
qed

lemma aes_mul:
  assumes "0 \<le> a" "a \<le> 255" "0 \<le> b" "b \<le> 255"
  shows "mul AES_field a b = mulByte a b 0x11B"
proof -
  from GF256_Inr [OF aes_constructed]
  have wf: "wf_field (word_of_int 0x11B) (word_of_int 0x03) AES_field" by simp
  have "mul AES_field (uint (word_of_int a :: byte)) (uint (word_of_int b :: byte))
      = Inr (uint (bmul (word_of_int 0x11B) (word_of_int a) (word_of_int b)))"
    by (rule wf_mul [OF wf])
  then show ?thesis using assms by (simp add: int_byte mulByte_bmul)
qed

lemma mulByte_100: "mulByte 100 100 0x11B = Inr 215"
  by code_simp

lemma mulByte_255: "mulByte 255 255 0x11B = Inr 19"
  by code_simp

lemma mulByte_3_1: "mulByte 3 1 0x11B = Inr 3"
  by code_simp

lemma mulByte_1_1: "mulByte 1 1 0x11B = Inr 1"
  by code_simp

lemma mulByte_3_2: "mulByte 3 2 0x11B = Inr 6"
  by code_simp

lemma mulByte_4_2: "mulByte 4 2 0x11B = Inr 8"
  by code_simp


section \<open>The claims\<close>

text \<open>
  C1. For every field constructed from a polynomial and a generator, the \<open>exp\<close> and
  \<open>log\<close> tables are mutual inverses on the 255 nonzero byte values: \<open>exp[log[v]] = v\<close>
  for every nonzero byte \<open>v\<close>, \<open>log[exp[i]] = i\<close> for every exponent \<open>i\<close> in [0,255), and
  the first 255 entries of \<open>exp\<close> are exactly the 255 distinct nonzero bytes.
\<close>

theorem exp_log_inverse:
  assumes "GF256 p g = Inr f"
  shows "(\<forall>v. 1 \<le> v \<and> v \<le> 255 \<longrightarrow>
            (\<exists>l. load (log f) v = Some l \<and> 0 \<le> l \<and> l < 255 \<and> load (exp f) l = Some v))
       \<and> (\<forall>i. 0 \<le> i \<and> i < 255 \<longrightarrow>
            (\<exists>e. load (exp f) i = Some e \<and> 1 \<le> e \<and> e \<le> 255 \<and> load (log f) e = Some i))
       \<and> distinct (take 255 (exp f)) \<and> set (take 255 (exp f)) = UNIV - {0}"
proof -
  let ?m = "word_of_int p :: byte" and ?g = "word_of_int g :: byte"
  from GF256_Inr [OF assms] have wf: "wf_field ?m ?g f" by simp
  then have gen: "generates ?m ?g" by (simp add: wf_field_def)
  have A: "\<exists>l. load (log f) v = Some l \<and> 0 \<le> l \<and> l < 255 \<and> load (exp f) l = Some v"
    if "1 \<le> v \<and> v \<le> 255" for v
  proof -
    from that obtain w :: byte where w: "v = uint w" by (metis byte_cases zero_le_one order_trans)
    with that have "w \<noteq> 0" by auto
    from wf_log_ex [OF wf this] obtain j where
      j: "j < 255" "bpow ?m ?g j = w" "load (log f) (uint w) = Some (int j)" by blast
    have "load (exp f) (int j) = Some (uint (bpow ?m ?g (j mod 255)))"
      using j(1) by (intro wf_load_exp [OF wf]) simp
    then have "load (exp f) (int j) = Some v" using j w by simp
    with j w show ?thesis by auto
  qed
  have B: "\<exists>e. load (exp f) i = Some e \<and> 1 \<le> e \<and> e \<le> 255 \<and> load (log f) e = Some i"
    if "0 \<le> i \<and> i < 255" for i
  proof -
    define k where "k = nat i"
    with that have k: "i = int k" "k < 255" by auto
    have "load (exp f) (int k) = Some (uint (bpow ?m ?g (k mod 255)))"
      using k(2) by (intro wf_load_exp [OF wf]) simp
    then have 1: "load (exp f) i = Some (uint (bpow ?m ?g k))" using k by simp
    have 2: "1 \<le> uint (bpow ?m ?g k)"
      using bpow_nonzero [OF gen, of k] by (rule uint_byte_ge_1)
    have 3: "load (log f) (uint (bpow ?m ?g k)) = Some i"
      using wf_load_log [OF wf k(2)] k(1) by simp
    from 1 2 3 uint_byte_range [of "bpow ?m ?g k"] show ?thesis by blast
  qed
  have C: "distinct (take 255 (exp f))"
    using gen by (simp add: wf_take_exp [OF wf] generates_def)
  have "set (take 255 (exp f)) = bpow ?m ?g ` {..<255}"
    by (simp only: wf_take_exp [OF wf] set_map set_upt lessThan_atLeast0)
  then have D: "set (take 255 (exp f)) = UNIV - {0}"
    by (simp only: bpow_range [OF gen])
  from A B C D show ?thesis by blast
qed

theorem exp_log_inverse_witness:
  "GF256 0x11B 0x03 = Inr AES_field
   \<and> (\<exists>l. load (log AES_field) 7 = Some l \<and> 0 \<le> l \<and> l < 255 \<and> load (exp AES_field) l = Some 7)
   \<and> (\<exists>e. load (exp AES_field) 5 = Some e \<and> 1 \<le> e \<and> e \<le> 255 \<and> load (log AES_field) e = Some 5)"
  using exp_log_inverse [OF aes_constructed] aes_constructed by simp


text \<open>
  C2. For every field constructed from \<open>(poly, gen)\<close> and all bytes \<open>a\<close>, \<open>b\<close>, the
  table-based \<open>mul(a, b)\<close> returns the same byte as the carry-less multiply-and-reduce
  routine \<open>mulByte(a, b, poly)\<close>.
\<close>

theorem mul_refines_mulByte:
  assumes "GF256 p g = Inr f" and "0 \<le> a" "a \<le> 255" "0 \<le> b" "b \<le> 255"
  shows "mul f a b = mulByte a b p"
proof -
  from GF256_Inr [OF assms(1)] have v: "valid_params p g"
    and wf: "wf_field (word_of_int p) (word_of_int g) f" by simp_all
  from assms obtain x y :: byte where xy: "a = uint x" "b = uint y"
    by (metis byte_cases)
  have "mulByte a b p = Inr (uint (bmul (word_of_int p) (word_of_int a) (word_of_int b)))"
    using assms v by (intro mulByte_bmul) (simp_all add: valid_params_def)
  then show ?thesis unfolding xy by (simp add: wf_mul [OF wf])
qed

theorem mul_refines_mulByte_witness:
  "GF256 0x11B 0x03 = Inr AES_field \<and> mul AES_field 100 100 = mulByte 100 100 0x11B"
  using mul_refines_mulByte [OF aes_constructed, of 100 100] aes_constructed by simp

text \<open>
  C3. Round trip of evaluation and interpolation: for every field, every coefficient
  array of length \<open>d + 1\<close> and every \<open>d + 1\<close> samples whose x-coordinates are pairwise
  distinct nonzero bytes and whose y is the value of \<open>evaluate\<close> at x, \<open>interpolate\<close> on
  those samples returns the original y at each sample's x, and at every nonzero byte x
  outside the samples it returns what \<open>evaluate\<close> returns there.
\<close>

theorem interpolate_evaluate_roundtrip:
  assumes "GF256 p g = Inr f"
    and "coefficients \<noteq> []"
    and "length samples = length coefficients"
    and "distinct (map px samples)"
    and "\<forall>s\<in>set samples. 1 \<le> px s \<and> px s \<le> 255 \<and> evaluate f coefficients (px s) = Inr (py s)"
  shows "(\<forall>s\<in>set samples. interpolate f samples (px s) = Inr (py s))
       \<and> (\<forall>x. 1 \<le> x \<and> x \<le> 255 \<and> x \<notin> px ` set samples \<longrightarrow>
            interpolate f samples x = evaluate f coefficients x)"
proof -
  let ?m = "word_of_int p :: byte" and ?g = "word_of_int g :: byte"
  from GF256_Inr [OF assms(1)] have wf: "wf_field ?m ?g f" by simp
  note sp = samples_of_polynomial [OF wf assms(2) assms(5)]
  have ne: "samples \<noteq> []" using assms(2,3) by auto
  have "distinct (map uint (map node samples))" using assms(4) by (simp only: sp(3))
  then have dn: "distinct (map node samples)"
    by (simp only: distinct_map [of uint "map node samples"])
  have key: "interpolate f samples x = evaluate f coefficients x" if "1 \<le> x \<and> x \<le> 255" for x
  proof -
    from that obtain w :: byte where w: "x = uint w" by (metis byte_cases zero_le_one order_trans)
    with that have nz: "w \<noteq> 0" by auto
    have "interpolate f samples (uint w)
        = Inr (uint (lsum ?m w [] (map sample_bytes samples)))"
      using wf sp(1) assms(4) ne by (rule interpolate_lsum)
    also have "lsum ?m w [] (map sample_bytes samples) = beval ?m w coefficients"
      unfolding sp(2) using wf dn by (rule lsum_beval) (simp add: assms(3))
    finally show ?thesis by (simp add: w evaluate_beval [OF wf assms(2) nz])
  qed
  have A: "interpolate f samples (px s) = Inr (py s)" if "s \<in> set samples" for s
    using that assms(5) key [of "px s"] by auto
  from A key show ?thesis by blast
qed

theorem interpolate_evaluate_roundtrip_witness:
  "GF256 0x11B 0x03 = Inr AES_field
   \<and> evaluate AES_field [1, 2, 3] 1 = Inr 0
   \<and> evaluate AES_field [1, 2, 3] 2 = Inr 9
   \<and> evaluate AES_field [1, 2, 3] 3 = Inr 8
   \<and> interpolate AES_field [\<lparr>px = 1, py = 0\<rparr>, \<lparr>px = 2, py = 9\<rparr>, \<lparr>px = 3, py = 8\<rparr>] 1 = Inr 0
   \<and> interpolate AES_field [\<lparr>px = 1, py = 0\<rparr>, \<lparr>px = 2, py = 9\<rparr>, \<lparr>px = 3, py = 8\<rparr>] 2 = Inr 9
   \<and> interpolate AES_field [\<lparr>px = 1, py = 0\<rparr>, \<lparr>px = 2, py = 9\<rparr>, \<lparr>px = 3, py = 8\<rparr>] 3 = Inr 8
   \<and> interpolate AES_field [\<lparr>px = 1, py = 0\<rparr>, \<lparr>px = 2, py = 9\<rparr>, \<lparr>px = 3, py = 8\<rparr>] 4
       = evaluate AES_field [1, 2, 3] 4"
proof -
  let ?S = "[\<lparr>px = 1, py = 0\<rparr>, \<lparr>px = 2, py = 9\<rparr>, \<lparr>px = 3, py = 8\<rparr>]"
  have m33: "mulByte 3 3 0x11B = Inr 5" by code_simp
  have m73: "mulByte 7 3 0x11B = Inr 9" by code_simp
  have e1: "evaluate AES_field [1, 2, 3] 1 = Inr 0"
    by (simp add: evaluate_def validateByte_def load_def Let_def
        aes_mul mulByte_3_1 mulByte_1_1 add_def)
  have e2: "evaluate AES_field [1, 2, 3] 2 = Inr 9"
    by (simp add: evaluate_def validateByte_def load_def Let_def
        aes_mul mulByte_3_2 mulByte_4_2 add_def)
  have e3: "evaluate AES_field [1, 2, 3] 3 = Inr 8"
    by (simp add: evaluate_def validateByte_def load_def Let_def
        aes_mul m33 m73 add_def)
  have h: "\<forall>s\<in>set ?S. 1 \<le> px s \<and> px s \<le> 255 \<and> evaluate AES_field [1, 2, 3] (px s) = Inr (py s)"
    using e1 e2 e3 by simp
  have r: "(\<forall>s\<in>set ?S. interpolate AES_field ?S (px s) = Inr (py s))
       \<and> (\<forall>x. 1 \<le> x \<and> x \<le> 255 \<and> x \<notin> px ` set ?S \<longrightarrow>
            interpolate AES_field ?S x = evaluate AES_field [1, 2, 3] x)"
    using aes_constructed _ _ _ h by (rule interpolate_evaluate_roundtrip) simp_all
  from r have "interpolate AES_field ?S 4 = evaluate AES_field [1, 2, 3] 4" by simp
  with r e1 e2 e3 aes_constructed show ?thesis by simp
qed


text \<open>
  C4. For every field and all byte operands: \<open>div(a, b)\<close> fails with the division-by-zero
  error if and only if \<open>b = 0\<close>; \<open>div(0, b) = 0\<close> for nonzero \<open>b\<close>; for nonzero \<open>a\<close> and
  \<open>b\<close> the result is \<open>exp[diff]\<close> with \<open>diff = log[a] - log[b]\<close>, plus 255 when negative.
\<close>

theorem div_spec:
  assumes "GF256 p g = Inr f" and "0 \<le> a" "a \<le> 255" "0 \<le> b" "b \<le> 255"
  shows "(div_gf f a b = Inl DivisionByZero \<longleftrightarrow> b = 0)
       \<and> (b \<noteq> 0 \<longrightarrow> div_gf f 0 b = Inr 0)
       \<and> (a \<noteq> 0 \<and> b \<noteq> 0 \<longrightarrow>
            (\<exists>la lb v. load (log f) a = Some la \<and> load (log f) b = Some lb
               \<and> load (exp f) (if la - lb < 0 then la - lb + 255 else la - lb) = Some v
               \<and> div_gf f a b = Inr v))"
proof -
  from GF256_Inr [OF assms(1)] have wf: "wf_field (word_of_int p) (word_of_int g) f" by simp
  from assms obtain x y :: byte where xy: "a = uint x" "b = uint y"
    by (metis byte_cases)
  have A: "div_gf f a b = Inl DivisionByZero" if "b = 0"
    using that assms by (simp add: div_gf_def validateByte_def)
  have B: "div_gf f 0 b = Inr 0" if "b \<noteq> 0"
    using that assms by (simp add: div_gf_def validateByte_def)
  have C: "\<exists>la lb v. load (log f) a = Some la \<and> load (log f) b = Some lb
               \<and> load (exp f) (if la - lb < 0 then la - lb + 255 else la - lb) = Some v
               \<and> div_gf f a b = Inr v" if "a \<noteq> 0 \<and> b \<noteq> 0"
  proof -
    from that have "x \<noteq> 0" "y \<noteq> 0" by (auto simp: xy)
    from wf_div_reads [OF wf this] obtain i j d where
      "load (log f) a = Some (int i)" "load (log f) b = Some (int j)"
      "(if int i - int j < 0 then int i - int j + 255 else int i - int j) = int d"
      "load (exp f) (int d) = Some (uint (bpow (word_of_int p) (word_of_int g) d))"
      "div_gf f a b = Inr (uint (bpow (word_of_int p) (word_of_int g) d))"
      unfolding xy by blast
    then show ?thesis by (intro exI [of _ "int i"] exI [of _ "int j"] exI) simp
  qed
  have D: "div_gf f a b \<noteq> Inl DivisionByZero" if "b \<noteq> 0"
  proof (cases "a = 0")
    case True
    with B [OF that] show ?thesis by simp
  next
    case False
    with C that show ?thesis by auto
  qed
  from A B C D show ?thesis by blast
qed

theorem div_spec_witness:
  "GF256 0x11B 0x03 = Inr AES_field
   \<and> div_gf AES_field 5 0 = Inl DivisionByZero
   \<and> div_gf AES_field 0 5 = Inr 0
   \<and> (\<exists>la lb v. load (log AES_field) 7 = Some la \<and> load (log AES_field) 5 = Some lb
         \<and> load (exp AES_field) (if la - lb < 0 then la - lb + 255 else la - lb) = Some v
         \<and> div_gf AES_field 7 5 = Inr v)"
  using div_spec [OF aes_constructed, of 5 0] div_spec [OF aes_constructed, of 0 5]
    div_spec [OF aes_constructed, of 7 5] aes_constructed
  by simp

text \<open>
  C5. For every 16-bit polynomial and byte candidate \<open>c\<close>, \<open>isGenerator(poly, c)\<close> is true
  if and only if the 255 values 1, c, c^2, ..., c^254, computed by repeated \<open>mulByte\<close>
  starting from 1, are pairwise distinct; \<open>isGenerator(0x11B, 0x03)\<close> is true, and
  \<open>isGenerator(poly, 0)\<close> and \<open>isGenerator(poly, 1)\<close> are false for every 16-bit \<open>poly\<close>.
\<close>

theorem isGenerator_spec:
  assumes "0 \<le> p" "p \<le> 65535" "0 \<le> c" "c \<le> 255"
  shows "isGenerator p c = Inr (distinct (map (gen_power p c) [0..<255]))
       \<and> (\<forall>n. \<exists>v. gen_power p c n = Inr v \<and> 0 \<le> v \<and> v \<le> 255)
       \<and> isGenerator 0x11B 0x03 = Inr True
       \<and> isGenerator p 0 = Inr False
       \<and> isGenerator p 1 = Inr False"
proof -
  from assms have v: "valid_params p c" and v0: "valid_params p 0" and v1: "valid_params p 1"
    by (simp_all add: valid_params_def)
  have "isGenerator p c = Inr (distinct (map (gen_power p c) [0..<255]))"
    by (simp only: isGenerator_generates [OF v] gen_power_inj [OF v])
  moreover have "\<exists>v. gen_power p c n = Inr v \<and> 0 \<le> v \<and> v \<le> 255" for n
    using uint_byte_range by (simp add: gen_power_bpow [OF v])
  moreover have "isGenerator p 0 = Inr False"
    using isGenerator_generates [OF v0] not_generates_0 by simp
  moreover have "isGenerator p 1 = Inr False"
    using isGenerator_generates [OF v1] not_generates_1 by simp
  ultimately show ?thesis using isGenerator_aes by blast
qed

theorem isGenerator_spec_witness:
  "(0::int) \<le> 0x11D \<and> (0x11D::int) \<le> 65535 \<and> (0::int) \<le> 2 \<and> (2::int) \<le> 255
   \<and> isGenerator 0x11D 2 = Inr (distinct (map (gen_power 0x11D 2) [0..<255]))
   \<and> isGenerator 0x11D 0 = Inr False \<and> isGenerator 0x11D 1 = Inr False"
  using isGenerator_spec [of "0x11D" 2] by simp

text \<open>
  C6, as the code has it. The claim gives the 512-entry \<open>exp\<close> table period 255 on all of
  [0,512). The duplication loop of the constructor writes the indices 255..510 only, so
  the last entry stays 0: \<open>exp[i]\<close> is the generator to the power \<open>i mod 255\<close> for every
  \<open>i\<close> in [0,511), \<open>exp[i + 255] = exp[i]\<close> for every \<open>i\<close> with \<open>i + 255 < 511\<close>, and
  \<open>exp[511] = 0\<close>.
\<close>

theorem exp_period_below_511:
  assumes "GF256 p g = Inr f"
  shows "length (exp f) = 512
       \<and> (\<forall>i. 0 \<le> i \<and> i < 511 \<longrightarrow>
            (\<exists>v. load (exp f) i = Some v \<and> gen_power p g (nat i mod 255) = Inr v))
       \<and> (\<forall>i. 0 \<le> i \<and> i + 255 < 511 \<longrightarrow> load (exp f) (i + 255) = load (exp f) i)
       \<and> load (exp f) 511 = Some 0"
proof -
  let ?m = "word_of_int p :: byte" and ?g = "word_of_int g :: byte"
  from GF256_Inr [OF assms(1)] have v: "valid_params p g" and wf: "wf_field ?m ?g f" by simp_all
  have E: "load (exp f) i = Some (uint (bpow ?m ?g (nat i mod 255)))" if "0 \<le> i \<and> i < 511" for i
  proof -
    have "load (exp f) (int (nat i)) = Some (uint (bpow ?m ?g (nat i mod 255)))"
      using that by (intro wf_load_exp [OF wf]) auto
    then show ?thesis using that by simp
  qed
  have A: "\<exists>v. load (exp f) i = Some v \<and> gen_power p g (nat i mod 255) = Inr v"
    if "0 \<le> i \<and> i < 511" for i
    using E [OF that] by (simp add: gen_power_bpow [OF v])
  have B: "load (exp f) (i + 255) = load (exp f) i" if "0 \<le> i \<and> i + 255 < 511" for i
  proof -
    have "nat (i + 255) = nat i + 255" using that by auto
    then have "nat (i + 255) mod 255 = nat i mod 255" by simp
    then show ?thesis using E [of i] E [of "i + 255"] that by simp
  qed
  from A B wf_load_exp_511 [OF wf] wf show ?thesis by (simp add: wf_field_def)
qed

theorem exp_period_below_511_witness:
  "GF256 0x11B 0x03 = Inr AES_field
   \<and> (\<exists>v. load (exp AES_field) 300 = Some v \<and> gen_power 0x11B 0x03 (nat 300 mod 255) = Inr v)
   \<and> load (exp AES_field) (200 + 255) = load (exp AES_field) 200
   \<and> load (exp AES_field) 511 = Some 0"
proof -
  note t = exp_period_below_511 [OF aes_constructed]
  have "\<exists>v. load (exp AES_field) 300 = Some v \<and> gen_power 0x11B 0x03 (nat 300 mod 255) = Inr v"
    using t [THEN conjunct2, THEN conjunct1, THEN spec, of 300] by simp
  moreover have "load (exp AES_field) (200 + 255) = load (exp AES_field) 200"
    using t [THEN conjunct2, THEN conjunct2, THEN conjunct1, THEN spec, of 200] by simp
  moreover have "load (exp AES_field) 511 = Some 0"
    using t by simp
  ultimately show ?thesis using aes_constructed by simp
qed


text \<open>
  The claim C6 as stated fails in the AES field at \<open>i = 256\<close>: \<open>exp[511]\<close> is 0, while
  \<open>exp[256]\<close> and the generator to the power \<open>511 mod 255\<close> are 3.
\<close>

theorem exp_period_counterexample:
  "GF256 0x11B 0x03 = Inr AES_field
   \<and> load (exp AES_field) (256 + 255) \<noteq> load (exp AES_field) 256
   \<and> load (exp AES_field) (256 + 255) = Some 0
   \<and> load (exp AES_field) 256 = Some 3
   \<and> gen_power 0x11B 0x03 (511 mod 255) = Inr 3"
proof -
  from GF256_Inr [OF aes_constructed]
  have wf: "wf_field (word_of_int 0x11B) (word_of_int 0x03) AES_field" by simp
  have "load (exp AES_field) (int 256) = Some (uint (bpow (word_of_int 0x11B) (word_of_int 0x03) (256 mod 255)))"
    by (rule wf_load_exp [OF wf]) simp
  moreover have "(256::nat) mod 255 = Suc 0" by simp
  moreover have "gen_power 0x11B 0x03 (Suc 0) = Inr (uint (bpow (word_of_int 0x11B) (word_of_int 0x03) (Suc 0)))"
    by (rule gen_power_bpow [OF valid_aes])
  moreover have "(511::nat) mod 255 = Suc 0" by simp
  ultimately show ?thesis using aes_constructed wf_load_exp_511 [OF wf]
    by (simp add: bmul_1_left)
qed

text \<open>
  C7. For every field and every nonzero byte \<open>a\<close>, \<open>mul(a, inv(a)) = 1\<close>, where \<open>inv(a)\<close>
  is \<open>exp[255 - log[a]]\<close>; \<open>inv\<close> fails with the no-inverse error exactly when \<open>a = 0\<close>.
\<close>

theorem inv_spec:
  assumes "GF256 p g = Inr f" and "0 \<le> a" "a \<le> 255"
  shows "(inv_gf f a = Inl NoInverseForZero \<longleftrightarrow> a = 0)
       \<and> (a \<noteq> 0 \<longrightarrow>
            (\<exists>la v. load (log f) a = Some la \<and> load (exp f) (255 - la) = Some v
               \<and> inv_gf f a = Inr v \<and> mul f a v = Inr 1))"
proof -
  let ?m = "word_of_int p :: byte" and ?g = "word_of_int g :: byte"
  from GF256_Inr [OF assms(1)] have wf: "wf_field ?m ?g f" by simp
  from assms obtain x :: byte where x: "a = uint x"
    by (metis byte_cases)
  have A: "inv_gf f a = Inl NoInverseForZero" if "a = 0"
    using that by (simp add: inv_gf_def validateByte_def)
  have B: "\<exists>la v. load (log f) a = Some la \<and> load (exp f) (255 - la) = Some v
               \<and> inv_gf f a = Inr v \<and> mul f a v = Inr 1" if "a \<noteq> 0"
  proof -
    from that have nz: "x \<noteq> 0" by (auto simp: x)
    from wf_log_ex [OF wf nz] obtain i where i: "i < 255" "load (log f) a = Some (int i)"
      unfolding x by blast
    from wf_inv_ex [OF wf nz] obtain c where
      c: "inv_gf f a = Inr (uint c)" "bmul ?m x c = 1"
      unfolding x by blast
    have "load (exp f) (255 - int i) = Some (uint c)"
      using c(1) i that assms(2,3)
      by (auto simp: inv_gf_def validateByte_def split: option.splits)
    moreover have "mul f a (uint c) = Inr 1"
      unfolding x by (simp add: wf_mul [OF wf] c(2))
    ultimately show ?thesis using i(2) c(1) by blast
  qed
  have C: "inv_gf f a \<noteq> Inl NoInverseForZero" if "a \<noteq> 0"
    using B [OF that] by auto
  from A B C show ?thesis by blast
qed

theorem inv_spec_witness:
  "GF256 0x11B 0x03 = Inr AES_field
   \<and> inv_gf AES_field 0 = Inl NoInverseForZero
   \<and> (\<exists>la v. load (log AES_field) 0x53 = Some la \<and> load (exp AES_field) (255 - la) = Some v
         \<and> inv_gf AES_field 0x53 = Inr v \<and> mul AES_field 0x53 v = Inr 1)"
  using inv_spec [OF aes_constructed, of 0] inv_spec [OF aes_constructed, of "0x53"] aes_constructed
  by simp

text \<open>
  C10. For every constructed field and all operands that pass the byte validation, the
  table reads of \<open>mul\<close>, \<open>div\<close> and \<open>inv\<close> stay inside the tables: \<open>log[a] + log[b]\<close>
  lies in [0,508], the adjusted difference in [0,254], \<open>255 - log[a]\<close> in [1,255], all
  below the 512 entries of \<open>exp\<close>. Each operation returns a byte or raises its own
  validation error; no read is out of bounds.
\<close>

theorem table_reads_in_bounds:
  assumes "GF256 p g = Inr f"
  shows "length (exp f) = 512 \<and> length (log f) = 256
       \<and> (1 \<le> a \<and> a \<le> 255 \<and> 1 \<le> b \<and> b \<le> 255 \<longrightarrow>
            (\<exists>la lb. load (log f) a = Some la \<and> load (log f) b = Some lb
               \<and> 0 \<le> la + lb \<and> la + lb \<le> 508
               \<and> 0 \<le> (if la - lb < 0 then la - lb + 255 else la - lb)
               \<and> (if la - lb < 0 then la - lb + 255 else la - lb) \<le> 254
               \<and> 1 \<le> 255 - la \<and> 255 - la \<le> 255))
       \<and> (mul f a b = Inl OutOfRange \<or> (\<exists>v. mul f a b = Inr v \<and> 0 \<le> v \<and> v \<le> 255))
       \<and> (div_gf f a b = Inl OutOfRange \<or> div_gf f a b = Inl DivisionByZero
            \<or> (\<exists>v. div_gf f a b = Inr v \<and> 0 \<le> v \<and> v \<le> 255))
       \<and> (inv_gf f a = Inl OutOfRange \<or> inv_gf f a = Inl NoInverseForZero
            \<or> (\<exists>v. inv_gf f a = Inr v \<and> 0 \<le> v \<and> v \<le> 255))
       \<and> (0 \<le> a \<and> a \<le> 255 \<and> 0 \<le> b \<and> b \<le> 255 \<longrightarrow>
            (\<exists>v. mul f a b = Inr v) \<and> (b \<noteq> 0 \<longrightarrow> (\<exists>v. div_gf f a b = Inr v))
            \<and> (a \<noteq> 0 \<longrightarrow> (\<exists>v. inv_gf f a = Inr v)))"
proof -
  let ?m = "word_of_int p :: byte" and ?g = "word_of_int g :: byte"
  from GF256_Inr [OF assms(1)] have wf: "wf_field ?m ?g f" by simp
  then have L: "length (exp f) = 512 \<and> length (log f) = 256" by (simp add: wf_field_def)
  have R: "\<exists>la lb. load (log f) a = Some la \<and> load (log f) b = Some lb
               \<and> 0 \<le> la + lb \<and> la + lb \<le> 508
               \<and> 0 \<le> (if la - lb < 0 then la - lb + 255 else la - lb)
               \<and> (if la - lb < 0 then la - lb + 255 else la - lb) \<le> 254
               \<and> 1 \<le> 255 - la \<and> 255 - la \<le> 255"
    if "1 \<le> a \<and> a \<le> 255 \<and> 1 \<le> b \<and> b \<le> 255"
  proof -
    from that obtain x y :: byte where xy: "a = uint x" "b = uint y"
      by (metis byte_cases zero_le_one order_trans)
    with that have "x \<noteq> 0" "y \<noteq> 0" by auto
    from wf_log_ex [OF wf this(1)] wf_log_ex [OF wf this(2)] obtain i j where
      "i < 255" "load (log f) a = Some (int i)" "j < 255" "load (log f) b = Some (int j)"
      unfolding xy by blast
    then show ?thesis by (intro exI [of _ "int i"] exI [of _ "int j"]) auto
  qed
  have M: "\<exists>v. mul f a b = Inr v \<and> 0 \<le> v \<and> v \<le> 255"
    if "0 \<le> a \<and> a \<le> 255 \<and> 0 \<le> b \<and> b \<le> 255"
  proof -
    from that obtain x y :: byte where xy: "a = uint x" "b = uint y"
      by (metis byte_cases)
    show ?thesis unfolding xy using uint_byte_range [of "bmul ?m x y"] by (simp add: wf_mul [OF wf])
  qed
  have D: "\<exists>v. div_gf f a b = Inr v \<and> 0 \<le> v \<and> v \<le> 255"
    if "0 \<le> a \<and> a \<le> 255 \<and> 0 \<le> b \<and> b \<le> 255" "b \<noteq> 0"
  proof -
    from that obtain x y :: byte where xy: "a = uint x" "b = uint y"
      by (metis byte_cases)
    with that have "y \<noteq> 0" by auto
    from wf_div_ex [OF wf this, of x] obtain c :: byte where "div_gf f a b = Inr (uint c)"
      unfolding xy by blast
    then show ?thesis using uint_byte_range [of c] by simp
  qed
  have I: "\<exists>v. inv_gf f a = Inr v \<and> 0 \<le> v \<and> v \<le> 255"
    if "0 \<le> a \<and> a \<le> 255" "a \<noteq> 0"
  proof -
    from that obtain x :: byte where x: "a = uint x"
      by (metis byte_cases)
    with that have "x \<noteq> 0" by auto
    from wf_inv_ex [OF wf this] obtain c :: byte where "inv_gf f a = Inr (uint c)"
      unfolding x by blast
    then show ?thesis using uint_byte_range [of c] by simp
  qed
  have M': "mul f a b = Inl OutOfRange \<or> (\<exists>v. mul f a b = Inr v \<and> 0 \<le> v \<and> v \<le> 255)"
    using M mul_invalid [of a b f] by blast
  have D': "div_gf f a b = Inl OutOfRange \<or> div_gf f a b = Inl DivisionByZero
            \<or> (\<exists>v. div_gf f a b = Inr v \<and> 0 \<le> v \<and> v \<le> 255)"
  proof (cases "0 \<le> a \<and> a \<le> 255 \<and> 0 \<le> b \<and> b \<le> 255")
    case False
    then show ?thesis using div_invalid [of a b f] by blast
  next
    case True
    show ?thesis
    proof (cases "b = 0")
      case True
      with \<open>0 \<le> a \<and> a \<le> 255 \<and> 0 \<le> b \<and> b \<le> 255\<close> have "div_gf f a b = Inl DivisionByZero"
        by (simp add: div_gf_def validateByte_def)
      then show ?thesis by simp
    next
      case False
      with D True show ?thesis by blast
    qed
  qed
  have I': "inv_gf f a = Inl OutOfRange \<or> inv_gf f a = Inl NoInverseForZero
            \<or> (\<exists>v. inv_gf f a = Inr v \<and> 0 \<le> v \<and> v \<le> 255)"
  proof (cases "0 \<le> a \<and> a \<le> 255")
    case False
    then show ?thesis using inv_invalid [of a f] by blast
  next
    case True
    show ?thesis
    proof (cases "a = 0")
      case True
      then have "inv_gf f a = Inl NoInverseForZero"
        by (simp add: inv_gf_def validateByte_def)
      then show ?thesis by simp
    next
      case False
      with I True show ?thesis by blast
    qed
  qed
  have T: "(\<exists>v. mul f a b = Inr v) \<and> (b \<noteq> 0 \<longrightarrow> (\<exists>v. div_gf f a b = Inr v))
            \<and> (a \<noteq> 0 \<longrightarrow> (\<exists>v. inv_gf f a = Inr v))"
    if "0 \<le> a \<and> a \<le> 255 \<and> 0 \<le> b \<and> b \<le> 255"
    using M [OF that] D [OF that] I [of] that by blast
  from L R M' D' I' T show ?thesis by blast
qed

theorem table_reads_in_bounds_witness:
  "GF256 0x11B 0x03 = Inr AES_field
   \<and> (\<exists>la lb. load (log AES_field) 200 = Some la \<and> load (log AES_field) 100 = Some lb
         \<and> 0 \<le> la + lb \<and> la + lb \<le> 508
         \<and> 0 \<le> (if la - lb < 0 then la - lb + 255 else la - lb)
         \<and> (if la - lb < 0 then la - lb + 255 else la - lb) \<le> 254
         \<and> 1 \<le> 255 - la \<and> 255 - la \<le> 255)
   \<and> (\<exists>v. mul AES_field 200 100 = Inr v) \<and> (\<exists>v. div_gf AES_field 200 100 = Inr v)
   \<and> (\<exists>v. inv_gf AES_field 200 = Inr v)"
  using table_reads_in_bounds [OF aes_constructed, of 200 100] aes_constructed
  by simp

text \<open>
  C8. \<open>evaluate(coefficients, x)\<close> fails when \<open>coefficients\<close> is empty, fails when
  \<open>x = 0\<close>, and otherwise returns the result of Horner's rule, from the highest
  coefficient down to the constant term with \<open>acc = add(mul(acc, x), c)\<close>, which is the
  field sum of \<open>coefficients[i]\<close> times \<open>x^i\<close>.
\<close>

theorem evaluate_spec:
  assumes "GF256 p g = Inr f"
  shows "(0 \<le> x \<and> x \<le> 255 \<longrightarrow> evaluate f [] x = Inl EmptyPolynomial)
       \<and> (coefficients \<noteq> [] \<longrightarrow> evaluate f coefficients 0 = Inl InvalidEvaluationPoint)
       \<and> (\<exists>e. evaluate f [] x = Inl e)
       \<and> (\<exists>e. evaluate f coefficients 0 = Inl e)
       \<and> (coefficients \<noteq> [] \<and> 1 \<le> x \<and> x \<le> 255 \<longrightarrow>
            (\<exists>v. evaluate f coefficients x = Inr v \<and> 0 \<le> v \<and> v \<le> 255
               \<and> horner f (map uint coefficients) x = Inr v
               \<and> field_sum f x 0 (map uint coefficients) = Inr v))"
proof -
  let ?m = "word_of_int p :: byte" and ?g = "word_of_int g :: byte"
  from GF256_Inr [OF assms(1)] have wf: "wf_field ?m ?g f" by simp
  have A: "evaluate f [] x = Inl EmptyPolynomial" if "0 \<le> x \<and> x \<le> 255"
    using that by (simp add: evaluate_def validateByte_def)
  have B: "evaluate f coefficients 0 = Inl InvalidEvaluationPoint" if "coefficients \<noteq> []"
    using that by (simp add: evaluate_def validateByte_def)
  have C: "\<exists>e. evaluate f [] x = Inl e"
    by (auto simp: evaluate_def validateByte_def)
  have D: "\<exists>e. evaluate f coefficients 0 = Inl e"
    by (auto simp: evaluate_def validateByte_def)
  have E: "\<exists>v. evaluate f coefficients x = Inr v \<and> 0 \<le> v \<and> v \<le> 255
               \<and> horner f (map uint coefficients) x = Inr v
               \<and> field_sum f x 0 (map uint coefficients) = Inr v"
    if "coefficients \<noteq> [] \<and> 1 \<le> x \<and> x \<le> 255"
  proof -
    from that obtain w :: byte where w: "x = uint w" by (metis byte_cases zero_le_one order_trans)
    with that have nz: "w \<noteq> 0" and cs: "coefficients \<noteq> []" by auto
    let ?v = "uint (beval ?m w coefficients)"
    have "evaluate f coefficients x = Inr ?v"
      unfolding w using wf cs nz by (rule evaluate_beval)
    moreover have "horner f (map uint coefficients) x = Inr ?v"
      unfolding w using wf cs by (rule horner_beval)
    moreover have "field_sum f x 0 (map uint coefficients) = Inr ?v"
      unfolding w by (simp add: field_sum_beval [OF wf] bmul_1_right)
    ultimately show ?thesis using uint_byte_range [of "beval ?m w coefficients"] by blast
  qed
  from A B C D E show ?thesis by blast
qed

theorem evaluate_spec_witness:
  "GF256 0x11B 0x03 = Inr AES_field
   \<and> evaluate AES_field [] 2 = Inl EmptyPolynomial
   \<and> evaluate AES_field [1, 2, 3] 0 = Inl InvalidEvaluationPoint
   \<and> (\<exists>v. evaluate AES_field [1, 2, 3] 2 = Inr v \<and> 0 \<le> v \<and> v \<le> 255
         \<and> horner AES_field (map uint [1, 2, 3 :: byte]) 2 = Inr v
         \<and> field_sum AES_field 2 0 (map uint [1, 2, 3 :: byte]) = Inr v)"
  using evaluate_spec [OF aes_constructed, of 2 "[1, 2, 3]"] aes_constructed
  by simp

text \<open>
  C9. In the field of polynomial 0x11B and generator 0x03: \<open>add(0x53, 0xCA) = 0x99\<close>,
  \<open>mul(100, 100) = 215\<close>, \<open>mul(255, 255) = 19\<close>, \<open>evaluate([1,2,3], 1) = 0\<close>,
  \<open>evaluate([1,2,3], 2) = 9\<close>, \<open>evaluate(coeffs, 0)\<close> fails, \<open>div(5, 0)\<close> fails and
  \<open>inv(0)\<close> fails.
\<close>

theorem aes_scenarios:
  "GF256 0x11B 0x03 = Inr AES_field
   \<and> add AES_field 0x53 0xCA = Inr 0x99
   \<and> mul AES_field 100 100 = Inr 215
   \<and> mul AES_field 255 255 = Inr 19
   \<and> evaluate AES_field [1, 2, 3] 1 = Inr 0
   \<and> evaluate AES_field [1, 2, 3] 2 = Inr 9
   \<and> evaluate AES_field [1, 2, 3] 0 = Inl InvalidEvaluationPoint
   \<and> (\<forall>coeffs. isl (evaluate AES_field coeffs 0))
   \<and> div_gf AES_field 5 0 = Inl DivisionByZero
   \<and> inv_gf AES_field 0 = Inl NoInverseForZero"
proof -
  have a: "add AES_field 0x53 0xCA = Inr 0x99"
    by (simp add: add_def validateByte_def)
  have m1: "mul AES_field 100 100 = Inr 215" by (simp add: aes_mul mulByte_100)
  have m2: "mul AES_field 255 255 = Inr 19" by (simp add: aes_mul mulByte_255)
  have e1: "evaluate AES_field [1, 2, 3] 1 = Inr 0"
    by (simp add: evaluate_def validateByte_def load_def Let_def
        aes_mul mulByte_3_1 mulByte_1_1 add_def)
  have e2: "evaluate AES_field [1, 2, 3] 2 = Inr 9"
    by (simp add: evaluate_def validateByte_def load_def Let_def
        aes_mul mulByte_3_2 mulByte_4_2 add_def)
  have e0: "evaluate AES_field [1, 2, 3] 0 = Inl InvalidEvaluationPoint"
    by (simp add: evaluate_def validateByte_def)
  have e0': "\<forall>coeffs. isl (evaluate AES_field coeffs 0)"
    by (simp add: evaluate_def validateByte_def)
  have d: "div_gf AES_field 5 0 = Inl DivisionByZero"
    by (simp add: div_gf_def validateByte_def)
  have i: "inv_gf AES_field 0 = Inl NoInverseForZero"
    by (simp add: inv_gf_def validateByte_def)
  from a m1 m2 e1 e2 e0 e0' d i aes_constructed show ?thesis
    by simp
qed



end
